theory Spec2Isabelle
  imports Main "HOL-Library.Word"
begin

unbundle bit_operations_syntax

section \<open>CFG++ parser with LabVIEW integration: the data model\<close>

text \<open>
  The development embeds \<^verbatim>\<open>cfgpp_parser.h\<close> and \<^verbatim>\<open>cfgpp_parser.cpp\<close>.
  Handles and out-pointers are taken to be valid: every API function answers a null
  handle with \<^verbatim>\<open>CFGPP_ERROR_INVALID_PARAMETER\<close> before it does anything else, and the
  functions below start after that check. A function of the C API returns its result
  code together with what it stored through its out-pointer.
\<close>

datatype CfgppResult =
    CFGPP_SUCCESS
  | CFGPP_ERROR_INVALID_SYNTAX
  | CFGPP_ERROR_FILE_NOT_FOUND
  | CFGPP_ERROR_MEMORY_ERROR
  | CFGPP_ERROR_INVALID_PARAMETER
  | CFGPP_ERROR_CIRCULAR_INCLUDE
  | CFGPP_ERROR_BUFFER_TOO_SMALL

datatype CfgppValueType =
    CFGPP_TYPE_NULL
  | CFGPP_TYPE_BOOLEAN
  | CFGPP_TYPE_INTEGER
  | CFGPP_TYPE_DOUBLE
  | CFGPP_TYPE_STRING
  | CFGPP_TYPE_ARRAY
  | CFGPP_TYPE_OBJECT
  | CFGPP_TYPE_ENUM

text \<open>
  \<^verbatim>\<open>struct CfgppValue\<close>: a tag and a variant that every construction site of the source
  keeps in step, hence one constructor per tag. An \<^verbatim>\<open>int64_t\<close> is a 64-bit word, a
  \<^verbatim>\<open>double\<close> is its IEEE-754 bit pattern. The \<^verbatim>\<open>unordered_map\<close> of an object is an
  association list with distinct keys; \<^verbatim>\<open>cfgpp_parser.cpp\<close> stores into it and looks keys
  up in it, and never visits its entries in order.
\<close>

datatype CfgppValue =
    VNull
  | VBoolean bool
  | VInteger "64 word"
  | VDouble "64 word"
  | VString string
  | VArray "CfgppValue list"
  | VObject "(string \<times> CfgppValue) list"
  | VEnum string

fun value_type :: "CfgppValue \<Rightarrow> CfgppValueType" where
  "value_type VNull = CFGPP_TYPE_NULL"
| "value_type (VBoolean b) = CFGPP_TYPE_BOOLEAN"
| "value_type (VInteger i) = CFGPP_TYPE_INTEGER"
| "value_type (VDouble d) = CFGPP_TYPE_DOUBLE"
| "value_type (VString s) = CFGPP_TYPE_STRING"
| "value_type (VArray xs) = CFGPP_TYPE_ARRAY"
| "value_type (VObject m) = CFGPP_TYPE_OBJECT"
| "value_type (VEnum s) = CFGPP_TYPE_ENUM"

text \<open>
  \<^verbatim>\<open>map[key] = v\<close> on an \<^verbatim>\<open>unordered_map\<close> that is only looked up: overwrite the entry of the
  key, or add one.
\<close>

fun map_set :: "'k \<Rightarrow> 'v \<Rightarrow> ('k \<times> 'v) list \<Rightarrow> ('k \<times> 'v) list" where
  "map_set k v [] = [(k, v)]"
| "map_set k v ((k', v') # m) = (if k' = k then (k, v) # m else (k', v') # map_set k v m)"

text \<open>
  \<^verbatim>\<open>map[key] = v\<close> on an \<^verbatim>\<open>unordered_map\<close> that a range-\<^verbatim>\<open>for\<close> visits. The list is the map in
  visiting order. The entry of a key that is present is overwritten where it is. Where a
  new key lands among the others is left to the implementation of the standard library
  (its hash function and its buckets): \<open>place\<close> stands for that choice and gives, from the
  keys in visiting order and the new key, the number of entries visited before the new
  one. Entries that are present keep their order in the model; a rehash of the library
  may move them as well. The theorems on a schema read from a text hold for every \<open>place\<close>
  and use lookups only.
\<close>

definition map_set_at ::
    "('k list \<Rightarrow> 'k \<Rightarrow> nat) \<Rightarrow> 'k \<Rightarrow> 'v \<Rightarrow> ('k \<times> 'v) list \<Rightarrow> ('k \<times> 'v) list" where
  "map_set_at place k v m =
     (if k \<in> set (map fst m) then map_set k v m
      else take (place (map fst m) k) m @ [(k, v)] @ drop (place (map fst m) k) m)"

section \<open>The binary record decoder\<close>

type_synonym byte = "8 word"

text \<open>
  A pointer into caller memory is the list of the bytes that can be read from it on. A
  read that leaves this list is undefined behaviour of the C++ program and is \<open>None\<close>
  in the model. Integers are stored least significant byte first (the library is built
  for x86 Windows).
\<close>

definition peek :: "byte list \<Rightarrow> nat \<Rightarrow> nat \<Rightarrow> byte list option" where
  "peek mem off n = (if off + n \<le> length mem then Some (take n (drop off mem)) else None)"

fun le_word :: "byte list \<Rightarrow> 'a::len word" where
  "le_word [] = 0"
| "le_word (b # bs) = ucast b OR push_bit 8 (le_word bs)"

definition LABVIEW_TYPE_VOID :: "32 word" where "LABVIEW_TYPE_VOID = 0"
definition LABVIEW_TYPE_I8 :: "32 word" where "LABVIEW_TYPE_I8 = 1"
definition LABVIEW_TYPE_I16 :: "32 word" where "LABVIEW_TYPE_I16 = 2"
definition LABVIEW_TYPE_I32 :: "32 word" where "LABVIEW_TYPE_I32 = 3"
definition LABVIEW_TYPE_I64 :: "32 word" where "LABVIEW_TYPE_I64 = 5"
definition LABVIEW_TYPE_U8 :: "32 word" where "LABVIEW_TYPE_U8 = 6"
definition LABVIEW_TYPE_U16 :: "32 word" where "LABVIEW_TYPE_U16 = 7"
definition LABVIEW_TYPE_U32 :: "32 word" where "LABVIEW_TYPE_U32 = 8"
definition LABVIEW_TYPE_U64 :: "32 word" where "LABVIEW_TYPE_U64 = 10"
definition LABVIEW_TYPE_SGL :: "32 word" where "LABVIEW_TYPE_SGL = 9"
definition LABVIEW_TYPE_DBL :: "32 word" where "LABVIEW_TYPE_DBL = 10"
definition LABVIEW_TYPE_BOOLEAN :: "32 word" where "LABVIEW_TYPE_BOOLEAN = 33"
definition LABVIEW_TYPE_STRING :: "32 word" where "LABVIEW_TYPE_STRING = 48"

lemmas labview_type_defs =
  LABVIEW_TYPE_VOID_def LABVIEW_TYPE_I8_def LABVIEW_TYPE_I16_def LABVIEW_TYPE_I32_def
  LABVIEW_TYPE_I64_def LABVIEW_TYPE_U8_def LABVIEW_TYPE_U16_def LABVIEW_TYPE_U32_def
  LABVIEW_TYPE_U64_def LABVIEW_TYPE_SGL_def LABVIEW_TYPE_DBL_def LABVIEW_TYPE_BOOLEAN_def
  LABVIEW_TYPE_STRING_def

text \<open>\<^verbatim>\<open>LabViewDataHeader\<close>: four 32-bit fields, \<^verbatim>\<open>sizeof\<close> 16.\<close>

record LabViewDataHeader =
  type_code :: "32 word"
  flags :: "32 word"
  data_size :: "32 word"
  dimensions :: "32 word"

definition sizeof_header :: nat where
  "sizeof_header = 16"

definition read_header :: "byte list \<Rightarrow> nat \<Rightarrow> LabViewDataHeader option" where
  "read_header mem off =
     (case peek mem off sizeof_header of
        None \<Rightarrow> None
      | Some bs \<Rightarrow>
          Some \<lparr>type_code = le_word (take 4 bs),
                flags = le_word (take 4 (drop 4 bs)),
                data_size = le_word (take 4 (drop 8 bs)),
                dimensions = le_word (take 4 (drop 12 bs))\<rparr>)"

text \<open>Reading a \<open>n\<close>-byte scalar through a cast pointer.\<close>

definition read_scalar :: "byte list \<Rightarrow> nat \<Rightarrow> 'a::len word option" where
  "read_scalar data_ptr n = map_option le_word (peek data_ptr 0 n)"

text \<open>
  \<^verbatim>\<open>static_cast<double>(float)\<close> on bit patterns: the widening is exact; a subnormal
  single becomes a normal double, a signalling NaN is quieted.
\<close>

fun highest_bit :: "nat \<Rightarrow> nat" where
  "highest_bit n = (if n < 2 then 0 else Suc (highest_bit (n div 2)))"

declare highest_bit.simps [simp del]

definition float_to_double :: "32 word \<Rightarrow> 64 word" where
  "float_to_double w =
     (let sign = push_bit 63 (ucast (drop_bit 31 w)) :: 64 word;
          e = unat (take_bit 8 (drop_bit 23 w));
          m = unat (take_bit 23 w)
      in if e = 255 then
           sign OR push_bit 52 2047 OR push_bit 29 (of_nat m)
             OR (if m \<noteq> 0 then push_bit 51 1 else 0)
         else if e = 0 then
           (if m = 0 then sign
            else let k = highest_bit m
                 in sign OR push_bit 52 (of_nat (k + 874)) OR push_bit (52 - k) (of_nat (m - 2 ^ k)))
         else sign OR push_bit 52 (of_nat (e + 896)) OR push_bit 29 (of_nat m))"

text \<open>
  \<^verbatim>\<open>cfgpp_from_labview_variant(variant_data, data_size, result)\<close>. The only use of
  \<^verbatim>\<open>data_size\<close> is the comparison with the size of the header; the payload is read
  through \<^verbatim>\<open>data_ptr\<close> without a look at \<^verbatim>\<open>data_size\<close> or at the header's own
  \<^verbatim>\<open>data_size\<close> field. The labels \<^verbatim>\<open>LABVIEW_TYPE_U64\<close> and \<^verbatim>\<open>LABVIEW_TYPE_DBL\<close> of the switch
  are both 10; the model tries the cases in the order of the source.
\<close>

definition success :: "CfgppValue \<Rightarrow> (CfgppResult \<times> CfgppValue option) option" where
  "success v = Some (CFGPP_SUCCESS, Some v)"

definition cfgpp_from_labview_variant ::
    "byte list \<Rightarrow> nat \<Rightarrow> (CfgppResult \<times> CfgppValue option) option" where
  "cfgpp_from_labview_variant variant_data dsize =
     (if dsize < sizeof_header then Some (CFGPP_ERROR_INVALID_PARAMETER, None)
      else case read_header variant_data 0 of
        None \<Rightarrow> None
      | Some header \<Rightarrow>
          (let data_ptr = drop sizeof_header variant_data; tc = type_code header in
           if tc = LABVIEW_TYPE_BOOLEAN then
             (case read_scalar data_ptr 1 of
                None \<Rightarrow> None
              | Some (b :: 8 word) \<Rightarrow> success (VBoolean (b \<noteq> 0)))
           else if tc = LABVIEW_TYPE_I8 \<or> tc = LABVIEW_TYPE_I16 \<or> tc = LABVIEW_TYPE_I32
                   \<or> tc = LABVIEW_TYPE_I64 then
             (if tc = LABVIEW_TYPE_I8 then
                (case read_scalar data_ptr 1 of
                   None \<Rightarrow> None | Some (x :: 8 word) \<Rightarrow> success (VInteger (scast x)))
              else if tc = LABVIEW_TYPE_I16 then
                (case read_scalar data_ptr 2 of
                   None \<Rightarrow> None | Some (x :: 16 word) \<Rightarrow> success (VInteger (scast x)))
              else if tc = LABVIEW_TYPE_I32 then
                (case read_scalar data_ptr 4 of
                   None \<Rightarrow> None | Some (x :: 32 word) \<Rightarrow> success (VInteger (scast x)))
              else
                (case read_scalar data_ptr 8 of
                   None \<Rightarrow> None | Some (x :: 64 word) \<Rightarrow> success (VInteger x)))
           else if tc = LABVIEW_TYPE_U8 \<or> tc = LABVIEW_TYPE_U16 \<or> tc = LABVIEW_TYPE_U32
                   \<or> tc = LABVIEW_TYPE_U64 then
             (if tc = LABVIEW_TYPE_U8 then
                (case read_scalar data_ptr 1 of
                   None \<Rightarrow> None | Some (x :: 8 word) \<Rightarrow> success (VInteger (ucast x)))
              else if tc = LABVIEW_TYPE_U16 then
                (case read_scalar data_ptr 2 of
                   None \<Rightarrow> None | Some (x :: 16 word) \<Rightarrow> success (VInteger (ucast x)))
              else if tc = LABVIEW_TYPE_U32 then
                (case read_scalar data_ptr 4 of
                   None \<Rightarrow> None | Some (x :: 32 word) \<Rightarrow> success (VInteger (ucast x)))
              else
                (case read_scalar data_ptr 8 of
                   None \<Rightarrow> None | Some (x :: 64 word) \<Rightarrow> success (VInteger x)))
           else if tc = LABVIEW_TYPE_SGL then
             (case read_scalar data_ptr 4 of
                None \<Rightarrow> None | Some (x :: 32 word) \<Rightarrow> success (VDouble (float_to_double x)))
           else if tc = LABVIEW_TYPE_DBL then
             (case read_scalar data_ptr 8 of
                None \<Rightarrow> None | Some (x :: 64 word) \<Rightarrow> success (VDouble x))
           else if tc = LABVIEW_TYPE_STRING then
             (case read_scalar data_ptr 4 of
                None \<Rightarrow> None
              | Some (str_length :: 32 word) \<Rightarrow>
                  (case peek data_ptr 4 (unat str_length) of
                     None \<Rightarrow> None
                   | Some str_data \<Rightarrow> success (VString (map (\<lambda>b. char_of (unat b)) str_data))))
           else Some (CFGPP_ERROR_INVALID_PARAMETER, None)))"

text \<open>
  The loop of \<^verbatim>\<open>cfgpp_from_labview_cluster\<close>, the remaining field names being
  \<^verbatim>\<open>field_names[i..]\<close>. A field whose decode does not return \<^verbatim>\<open>CFGPP_SUCCESS\<close> is not
  stored; the offset advances by the payload size of its header all the same.
  \<^verbatim>\<open>size_t\<close> has 64 bits, so the offsets do not wrap.
\<close>

fun cluster_loop ::
    "byte list \<Rightarrow> nat \<Rightarrow> string list \<Rightarrow> nat \<Rightarrow> (string \<times> CfgppValue) list
       \<Rightarrow> (string \<times> CfgppValue) list option" where
  "cluster_loop cluster_data dsize [] offset m = Some m"
| "cluster_loop cluster_data dsize (name # names) offset m =
     (if \<not> offset < dsize then Some m
      else if offset + sizeof_header > dsize then Some m
      else case read_header cluster_data offset of
        None \<Rightarrow> None
      | Some header \<Rightarrow>
          (case cfgpp_from_labview_variant (drop offset cluster_data)
                  (unat (data_size header) + sizeof_header) of
             None \<Rightarrow> None
           | Some (field_result, field_value) \<Rightarrow>
               cluster_loop cluster_data dsize names
                 (offset + sizeof_header + unat (data_size header))
                 (if field_result = CFGPP_SUCCESS then
                    (case field_value of Some v \<Rightarrow> map_set name v m | None \<Rightarrow> m)
                  else m)))"

definition cfgpp_from_labview_cluster ::
    "byte list \<Rightarrow> nat \<Rightarrow> string list \<Rightarrow> (CfgppResult \<times> CfgppValue option) option" where
  "cfgpp_from_labview_cluster cluster_data dsize field_names =
     (if length field_names = 0 then Some (CFGPP_ERROR_INVALID_PARAMETER, None)
      else case cluster_loop cluster_data dsize field_names 0 [] of
        None \<Rightarrow> None
      | Some m \<Rightarrow> Some (CFGPP_SUCCESS, Some (VObject m)))"

section \<open>The lexer\<close>

datatype TokenType =
    IDENTIFIER | STRING | NUMBER | BOOLEAN | ENUM_KW | NULL_KW
  | INCLUDE | ENV_VAR | OPERATOR | NAMESPACE | PUNCTUATION
  | WHITESPACE | COMMENT | END_OF_FILE

datatype Token = Token (tok_type: TokenType) (tok_value: string) (tok_line: nat) (tok_column: nat)

text \<open>
  \<^verbatim>\<open>struct CfgppParser\<close>. \<^verbatim>\<open>last_error_line\<close> and \<^verbatim>\<open>last_error_column\<close> are \<^verbatim>\<open>int\<close>s that
  receive a \<^verbatim>\<open>size_t\<close>; no text is long enough for the conversion to change the number.
\<close>

record CfgppParser =
  last_error :: string
  last_error_line :: int
  last_error_column :: int
  include_paths :: "string list"
  validation_enabled :: bool
  tokens :: "Token list"
  current_token_pos :: nat

definition cfgpp_parser_create :: CfgppParser where
  "cfgpp_parser_create =
     \<lparr>last_error = [], last_error_line = 0, last_error_column = 0, include_paths = [],
      validation_enabled = True, tokens = [], current_token_pos = 0\<rparr>"

subsection \<open>Character classes\<close>

text \<open>
  \<^verbatim>\<open>std::isspace\<close> in the C locale; \<^verbatim>\<open>\d\<close>, \<^verbatim>\<open>[a-zA-Z_]\<close> and \<^verbatim>\<open>[a-zA-Z0-9_]\<close> of the patterns.
\<close>

definition isspace :: "char \<Rightarrow> bool" where
  "isspace c = (c \<in> set [CHR '' '', CHR 0x09, CHR 0x0A, CHR 0x0B, CHR 0x0C, CHR 0x0D])"

definition is_digit :: "char \<Rightarrow> bool" where
  "is_digit c = (c \<in> set ''0123456789'')"

definition is_ident_start :: "char \<Rightarrow> bool" where
  "is_ident_start c =
     (c \<in> set ''abcdefghijklmnopqrstuvwxyzABCDEFGHIJKLMNOPQRSTUVWXYZ_'')"

definition is_ident_char :: "char \<Rightarrow> bool" where
  "is_ident_char c = (is_ident_start c \<or> is_digit c)"

text \<open>The characters that \<^verbatim>\<open>.\<close> of an ECMAScript regular expression does not match.\<close>

definition is_line_terminator :: "char \<Rightarrow> bool" where
  "is_line_terminator c = (c = CHR 0x0A \<or> c = CHR 0x0D)"

definition starts_with :: "string \<Rightarrow> string \<Rightarrow> bool" where
  "starts_with p s = (take (length p) s = p)"

subsection \<open>The twelve patterns\<close>

text \<open>
  Each pattern is used with \<^verbatim>\<open>regex_search\<close> under \<^verbatim>\<open>match_continuous\<close>: it has to
  match a prefix of the rest of the text. A matcher returns the length of the match that
  the backtracking search of ECMAScript finds first; \<open>None\<close> is no match.

  \<^verbatim>\<open>//.*?$\<close>: the lazy \<^verbatim>\<open>.*?\<close> stops at the first place where \<^verbatim>\<open>$\<close> holds. The standard
  lets \<^verbatim>\<open>$\<close> hold at the end of the text only, unless the expression was built with
  \<^verbatim>\<open>multiline\<close>; some standard libraries let it hold before any line terminator. The
  flag \<open>ml\<close> chooses, and every statement below holds for both.
\<close>

definition match_comment :: "bool \<Rightarrow> string \<Rightarrow> nat option" where
  "match_comment ml s =
     (if starts_with ''//'' s then
        (let body = takeWhile (\<lambda>c. \<not> is_line_terminator c) (drop 2 s) in
         if ml \<or> 2 + length body = length s then Some (2 + length body) else None)
      else None)"

text \<open>\<^verbatim>\<open>@(?:include|import)\<close>\<close>

definition match_include :: "string \<Rightarrow> nat option" where
  "match_include s =
     (if starts_with ''@include'' s then Some 8
      else if starts_with ''@import'' s then Some 7
      else None)"

text \<open>\<^verbatim>\<open>\$\{[a-zA-Z_][a-zA-Z0-9_]*(?::-[^}]*)?\}\<close>\<close>

definition match_env_var :: "string \<Rightarrow> nat option" where
  "match_env_var s =
     (case s of
        a # b # c # r \<Rightarrow>
          if a = CHR ''$'' \<and> b = CHR ''{'' \<and> is_ident_start c then
            (let name = takeWhile is_ident_char r; r1 = dropWhile is_ident_char r in
             case r1 of
               [] \<Rightarrow> None
             | d # r2 \<Rightarrow>
                 if d = CHR ''}'' then Some (3 + length name + 1)
                 else if starts_with '':-'' r1 then
                   (let dflt = takeWhile (\<lambda>x. x \<noteq> CHR ''}'') (drop 2 r1) in
                    if dropWhile (\<lambda>x. x \<noteq> CHR ''}'') (drop 2 r1) = [] then None
                    else Some (3 + length name + 2 + length dflt + 1))
                 else None)
          else None
      | _ \<Rightarrow> None)"

text \<open>
  \<^verbatim>\<open>"(?:\\.|[^"\\])*"\<close>: after the opening quote, a backslash takes the next character
  with it unless that is a line terminator, any other character but the quote stands
  for itself, and the first quote reached this way closes the literal.
\<close>

fun string_body :: "string \<Rightarrow> nat option" where
  "string_body [] = None"
| "string_body [c] = (if c = CHR ''\"'' then Some 1 else None)"
| "string_body (c # d # r) =
     (if c = CHR ''\"'' then Some 1
      else if c = CHR 0x5C then
        (if is_line_terminator d then None else map_option (\<lambda>n. n + 2) (string_body r))
      else map_option Suc (string_body (d # r)))"

definition match_string :: "string \<Rightarrow> nat option" where
  "match_string s =
     (case s of
        c # r \<Rightarrow> if c = CHR ''\"'' then map_option Suc (string_body r) else None
      | [] \<Rightarrow> None)"

text \<open>
  \<^verbatim>\<open>\d+(?:\.\d+)?(?:[eE][+-]?\d+)?\<close>: the digits, then the fraction if a digit follows
  the point, then the exponent if a digit follows the \<^verbatim>\<open>e\<close> and its optional sign.
\<close>

definition fraction_length :: "string \<Rightarrow> nat" where
  "fraction_length s =
     (case s of
        c # r \<Rightarrow>
          if c = CHR ''.'' \<and> takeWhile is_digit r \<noteq> [] then 1 + length (takeWhile is_digit r)
          else 0
      | [] \<Rightarrow> 0)"

definition sign_length :: "string \<Rightarrow> nat" where
  "sign_length s =
     (case s of c # r \<Rightarrow> if c = CHR ''+'' \<or> c = CHR ''-'' then 1 else 0 | [] \<Rightarrow> 0)"

definition exponent_length :: "string \<Rightarrow> nat" where
  "exponent_length s =
     (case s of
        c # r \<Rightarrow>
          if (c = CHR ''e'' \<or> c = CHR ''E'')
             \<and> takeWhile is_digit (drop (sign_length r) r) \<noteq> []
          then 1 + sign_length r + length (takeWhile is_digit (drop (sign_length r) r))
          else 0
      | [] \<Rightarrow> 0)"

definition match_number :: "string \<Rightarrow> nat option" where
  "match_number s =
     (let ds = takeWhile is_digit s in
      if ds = [] then None
      else
        (let r1 = drop (length ds) s;
             fl = fraction_length r1;
             el = exponent_length (drop fl r1)
         in Some (length ds + fl + el)))"

text \<open>\<^verbatim>\<open>true|false\<close>, \<^verbatim>\<open>enum\<close>, \<^verbatim>\<open>null\<close>, \<^verbatim>\<open>[+\-*/]\<close>, \<^verbatim>\<open>::\<close>\<close>

definition match_boolean :: "string \<Rightarrow> nat option" where
  "match_boolean s =
     (if starts_with ''true'' s then Some 4
      else if starts_with ''false'' s then Some 5
      else None)"

definition match_enum :: "string \<Rightarrow> nat option" where
  "match_enum s = (if starts_with ''enum'' s then Some 4 else None)"

definition match_null :: "string \<Rightarrow> nat option" where
  "match_null s = (if starts_with ''null'' s then Some 4 else None)"

definition match_operator :: "string \<Rightarrow> nat option" where
  "match_operator s =
     (case s of c # r \<Rightarrow> if c \<in> set ''+-*/'' then Some 1 else None | [] \<Rightarrow> None)"

definition match_namespace :: "string \<Rightarrow> nat option" where
  "match_namespace s = (if starts_with ''::'' s then Some 2 else None)"

text \<open>\<^verbatim>\<open>[a-zA-Z_][a-zA-Z0-9_]*\<close> and \<^verbatim>\<open>[\{\}\(\)\[\],;=\.]\<close>\<close>

definition match_identifier :: "string \<Rightarrow> nat option" where
  "match_identifier s =
     (case s of
        c # r \<Rightarrow> if is_ident_start c then Some (1 + length (takeWhile is_ident_char r)) else None
      | [] \<Rightarrow> None)"

definition match_punctuation :: "string \<Rightarrow> nat option" where
  "match_punctuation s =
     (case s of c # r \<Rightarrow> if c \<in> set ''{}()[],;=.'' then Some 1 else None | [] \<Rightarrow> None)"

text \<open>The arrays \<^verbatim>\<open>patterns\<close> and \<^verbatim>\<open>token_types\<close>, and the inner \<^verbatim>\<open>for\<close> loop over them.\<close>

definition patterns :: "bool \<Rightarrow> (TokenType \<times> (string \<Rightarrow> nat option)) list" where
  "patterns ml =
     [(COMMENT, match_comment ml), (INCLUDE, match_include), (ENV_VAR, match_env_var),
      (STRING, match_string), (NUMBER, match_number), (BOOLEAN, match_boolean),
      (ENUM_KW, match_enum), (NULL_KW, match_null), (OPERATOR, match_operator),
      (NAMESPACE, match_namespace), (IDENTIFIER, match_identifier),
      (PUNCTUATION, match_punctuation)]"

fun first_match :: "(TokenType \<times> (string \<Rightarrow> nat option)) list \<Rightarrow> string
                      \<Rightarrow> (TokenType \<times> nat) option" where
  "first_match [] s = None"
| "first_match ((ty, pat) # ps) s =
     (case pat s of Some n \<Rightarrow> Some (ty, n) | None \<Rightarrow> first_match ps s)"

subsection \<open>The scanning loop\<close>

text \<open>
  The inner \<^verbatim>\<open>while\<close> skips white space and counts lines and columns. The rest of the
  text stands for \<^verbatim>\<open>pos\<close>.
\<close>

fun skip_space :: "string \<Rightarrow> nat \<Rightarrow> nat \<Rightarrow> string \<times> nat \<times> nat" where
  "skip_space [] line column = ([], line, column)"
| "skip_space (c # r) line column =
     (if isspace c then
        (if c = CHR 0x0A then skip_space r (line + 1) 1 else skip_space r line (column + 1))
      else (c # r, line, column))"

text \<open>
  The outer loop. A match of length zero would keep the source in the loop for ever
  without a change of state; \<open>None\<close> stands for that, and \<open>scan_returns\<close> below shows
  that it does not happen. \<open>Inl\<close> is the early \<^verbatim>\<open>return {}\<close> with the character, line and
  column that go into the error fields.
\<close>

function scan :: "bool \<Rightarrow> string \<Rightarrow> nat \<Rightarrow> nat \<Rightarrow> Token list
                    \<Rightarrow> ((char \<times> nat \<times> nat) + Token list) option" where
  "scan ml text line column result =
     (case skip_space text line column of
        ([], l, c) \<Rightarrow> Some (Inr (result @ [Token END_OF_FILE [] l c]))
      | (ch # r, l, c) \<Rightarrow>
          (case first_match (patterns ml) (ch # r) of
             None \<Rightarrow> Some (Inl (ch, l, c))
           | Some (ty, n) \<Rightarrow>
               if n = 0 then None
               else scan ml (drop n (ch # r)) l (c + n)
                      (if ty = COMMENT then result else result @ [Token ty (take n (ch # r)) l c])))"
  by pat_completeness auto

lemma skip_space_length: "skip_space s l c = (s', l', c') \<Longrightarrow> length s' \<le> length s"
  by (induction s l c rule: skip_space.induct) (auto split: if_splits)

termination scan
  by (relation "measure (\<lambda>(ml, s, line, column, result). length s)")
    (auto dest!: skip_space_length skip_space_length[OF sym])

declare scan.simps [simp del]

text \<open>
  \<^verbatim>\<open>CfgppParser::tokenize\<close>: the tokens, and the parser with its error fields. \<open>None\<close> is
  the loop that never ends.
\<close>

definition tokenize :: "bool \<Rightarrow> CfgppParser \<Rightarrow> string \<Rightarrow> (Token list \<times> CfgppParser) option" where
  "tokenize ml parser text =
     (case scan ml text 1 1 [] of
        None \<Rightarrow> None
      | Some (Inr result) \<Rightarrow> Some (result, parser)
      | Some (Inl (ch, l, c)) \<Rightarrow>
          Some ([], parser\<lparr>last_error := ''Unexpected character: '' @ [ch],
                            last_error_line := int l,
                            last_error_column := int c\<rparr>))"

subsection \<open>Line and column of a place in a text\<close>

text \<open>
  The line and the column of the place behind a piece of text that starts at the given
  line and column: a newline opens a line at column 1, any other character is one column.
\<close>

fun position_after :: "string \<Rightarrow> nat \<Rightarrow> nat \<Rightarrow> nat \<times> nat" where
  "position_after [] line column = (line, column)"
| "position_after (x # xs) line column =
     (if x = CHR 0x0A then position_after xs (line + 1) 1
      else position_after xs line (column + 1))"

subsection \<open>The shape of a numeric literal\<close>




section \<open>The parser\<close>

text \<open>A call of a C++ function returns or throws.\<close>

datatype 'a cxx = Throws | Returns 'a

text \<open>\<^verbatim>\<open>a - b\<close> on \<^verbatim>\<open>size_t\<close>, and \<^verbatim>\<open>std::string::substr\<close>, which throws when \<open>pos\<close> is beyond the end.\<close>

definition size_t_sub :: "nat \<Rightarrow> nat \<Rightarrow> nat" where
  "size_t_sub a b = (if b \<le> a then a - b else a + 2 ^ 64 - b)"

definition substr :: "string \<Rightarrow> nat \<Rightarrow> nat \<Rightarrow> string option" where
  "substr s pos count = (if pos > length s then None else Some (take count (drop pos s)))"

text \<open>
  \<^verbatim>\<open>std::stoll\<close> in base 10: white space, an optional sign, digits up to the first
  character that is none. It throws \<^verbatim>\<open>invalid_argument\<close> without a digit and
  \<^verbatim>\<open>out_of_range\<close> beyond \<^verbatim>\<open>long long\<close>; \<open>None\<close> is either.
\<close>

definition digit_value :: "char \<Rightarrow> nat" where
  "digit_value c = of_char c - 48"

definition decimal :: "string \<Rightarrow> nat" where
  "decimal ds = foldl (\<lambda>a c. 10 * a + digit_value c) 0 ds"

definition stoll :: "string \<Rightarrow> 64 word option" where
  "stoll s =
     (let s1 = dropWhile isspace s;
          ds = takeWhile is_digit (drop (sign_length s1) s1);
          v = (if starts_with ''-'' s1 then - int (decimal ds) else int (decimal ds))
      in if ds = [] then None
         else if v < - (2 ^ 63) \<or> 2 ^ 63 - 1 < v then None
         else Some (word_of_int v))"

definition advance :: "CfgppParser \<Rightarrow> CfgppParser" where
  "advance P = P\<lparr>current_token_pos := current_token_pos P + 1\<rparr>"

text \<open>\<^verbatim>\<open>current_token_pos < tokens.size() && tokens[current_token_pos].value == s\<close>\<close>

definition at_value :: "CfgppParser \<Rightarrow> string \<Rightarrow> bool" where
  "at_value P s =
     (current_token_pos P < length (tokens P) \<and> tok_value (tokens P ! current_token_pos P) = s)"

text \<open>
  \<^verbatim>\<open>parse_value\<close>, \<^verbatim>\<open>parse_object\<close> and \<^verbatim>\<open>parse_array\<close> with their \<^verbatim>\<open>while\<close> loops. The
  parser is passed along and returned; a \<^verbatim>\<open>unique_ptr\<close> is an option, \<open>None\<close> being
  \<^verbatim>\<open>nullptr\<close>. \<^verbatim>\<open>std::stod\<close> is a parameter: \<open>None\<close> when it throws, or the bit pattern of
  its result. The first argument bounds the depth of the calls (each call and each turn
  of a loop takes one); \<open>None\<close> is a parse that is cut off by the bound, and
  \<open>parse_value_returns\<close> shows that three per token and one more are enough.
\<close>

function parse_value ::
      "nat \<Rightarrow> (string \<Rightarrow> 64 word option) \<Rightarrow> CfgppParser
         \<Rightarrow> (CfgppValue option cxx \<times> CfgppParser) option"
  and parse_object ::
      "nat \<Rightarrow> (string \<Rightarrow> 64 word option) \<Rightarrow> CfgppParser
         \<Rightarrow> (CfgppValue option cxx \<times> CfgppParser) option"
  and object_loop ::
      "nat \<Rightarrow> (string \<Rightarrow> 64 word option) \<Rightarrow> CfgppParser \<Rightarrow> (string \<times> CfgppValue) list
         \<Rightarrow> (CfgppValue option cxx \<times> CfgppParser) option"
  and parse_array ::
      "nat \<Rightarrow> (string \<Rightarrow> 64 word option) \<Rightarrow> CfgppParser
         \<Rightarrow> (CfgppValue option cxx \<times> CfgppParser) option"
  and array_loop ::
      "nat \<Rightarrow> (string \<Rightarrow> 64 word option) \<Rightarrow> CfgppParser \<Rightarrow> CfgppValue list
         \<Rightarrow> (CfgppValue option cxx \<times> CfgppParser) option"
where
  "parse_value 0 stod P = None"
| "parse_value (Suc n) stod P =
     (if current_token_pos P \<ge> length (tokens P) then Some (Returns None, P)
      else
        (let token = tokens P ! current_token_pos P in
         if tok_type token = STRING then
           (case substr (tok_value token) 1 (size_t_sub (length (tok_value token)) 2) of
              None \<Rightarrow> Some (Throws, advance P)
            | Some str \<Rightarrow> Some (Returns (Some (VString str)), advance P))
         else if tok_type token = NUMBER then
           (if CHR ''.'' \<in> set (tok_value token) \<or> CHR ''e'' \<in> set (tok_value token)
               \<or> CHR ''E'' \<in> set (tok_value token) then
              (case stod (tok_value token) of
                 None \<Rightarrow> Some (Throws, advance P)
               | Some d \<Rightarrow> Some (Returns (Some (VDouble d)), advance P))
            else
              (case stoll (tok_value token) of
                 None \<Rightarrow> Some (Throws, advance P)
               | Some i \<Rightarrow> Some (Returns (Some (VInteger i)), advance P)))
         else if tok_type token = BOOLEAN then
           Some (Returns (Some (VBoolean (tok_value token = ''true''))), advance P)
         else if tok_type token = NULL_KW then
           Some (Returns (Some VNull), advance P)
         else if tok_type token = PUNCTUATION then
           (if tok_value token = ''{'' then parse_object n stod P
            else if tok_value token = ''['' then parse_array n stod P
            else Some (Returns None, P))
         else if tok_type token = IDENTIFIER then
           (let next_pos = current_token_pos P + 1 in
            if next_pos < length (tokens P) \<and> tok_value (tokens P ! next_pos) = ''{''
            then parse_object n stod P
            else Some (Returns (Some (VEnum (tok_value token))), advance P))
         else Some (Returns None, P)))"
| "parse_object 0 stod P = None"
| "parse_object (Suc n) stod P =
     (let P1 = (if current_token_pos P < length (tokens P)
                   \<and> tok_type (tokens P ! current_token_pos P) = IDENTIFIER
                then advance P else P)
      in if \<not> at_value P1 ''{'' then Some (Returns None, P1\<lparr>last_error := ''Expected '' @ [CHR 0x27] @ ''{'' @ [CHR 0x27]\<rparr>)
         else object_loop n stod (advance P1) [])"
| "object_loop 0 stod P m = None"
| "object_loop (Suc n) stod P m =
     (if current_token_pos P < length (tokens P)
         \<and> tok_value (tokens P ! current_token_pos P) \<noteq> ''}'' then
        (if tok_type (tokens P ! current_token_pos P) \<noteq> IDENTIFIER then
           Some (Returns None, P\<lparr>last_error := ''Expected identifier for object key''\<rparr>)
         else
           (let key = tok_value (tokens P ! current_token_pos P); P1 = advance P in
            if \<not> at_value P1 ''='' then
              Some (Returns None,
                    P1\<lparr>last_error := ''Expected '' @ [CHR 0x27] @ ''='' @ [CHR 0x27] @ '' after object key''\<rparr>)
            else
              (case parse_value n stod (advance P1) of
                 None \<Rightarrow> None
               | Some (Throws, P2) \<Rightarrow> Some (Throws, P2)
               | Some (Returns None, P2) \<Rightarrow> Some (Returns None, P2)
               | Some (Returns (Some v), P2) \<Rightarrow>
                   object_loop n stod (if at_value P2 '';'' then advance P2 else P2)
                     (map_set key v m))))
      else if \<not> at_value P ''}'' then
        Some (Returns None, P\<lparr>last_error := ''Expected '' @ [CHR 0x27] @ ''}'' @ [CHR 0x27]\<rparr>)
      else Some (Returns (Some (VObject m)), advance P))"
| "parse_array 0 stod P = None"
| "parse_array (Suc n) stod P =
     (if \<not> at_value P ''['' then
        Some (Returns None, P\<lparr>last_error := ''Expected '' @ [CHR 0x27] @ ''['' @ [CHR 0x27]\<rparr>)
      else array_loop n stod (advance P) [])"
| "array_loop 0 stod P vec = None"
| "array_loop (Suc n) stod P vec =
     (if current_token_pos P < length (tokens P)
         \<and> tok_value (tokens P ! current_token_pos P) \<noteq> '']'' then
        (case parse_value n stod P of
           None \<Rightarrow> None
         | Some (Throws, P2) \<Rightarrow> Some (Throws, P2)
         | Some (Returns None, P2) \<Rightarrow> Some (Returns None, P2)
         | Some (Returns (Some v), P2) \<Rightarrow>
             array_loop n stod (if at_value P2 '','' then advance P2 else P2) (vec @ [v]))
      else if \<not> at_value P '']'' then
        Some (Returns None, P\<lparr>last_error := ''Expected '' @ [CHR 0x27] @ '']'' @ [CHR 0x27]\<rparr>)
      else Some (Returns (Some (VArray vec)), advance P))"

  by pat_completeness auto

termination
  by (relation "measure (case_sum (case_sum fst fst) (case_sum fst (case_sum fst fst)))")
    (simp_all (no_asm))

text \<open>
  \<^verbatim>\<open>cfgpp_parse_string\<close>: the result code, what is stored through \<^verbatim>\<open>result\<close>, and the
  parser. Nothing looks at the tokens that \<^verbatim>\<open>parse_value\<close> leaves. \<^verbatim>\<open>catch (...)\<close> turns
  every exception into \<^verbatim>\<open>CFGPP_ERROR_MEMORY_ERROR\<close>.
\<close>

definition parse_fuel :: "Token list \<Rightarrow> nat" where
  "parse_fuel ts = 3 * length ts + 1"

definition cfgpp_parse_string ::
    "bool \<Rightarrow> (string \<Rightarrow> 64 word option) \<Rightarrow> CfgppParser \<Rightarrow> string
       \<Rightarrow> ((CfgppResult \<times> CfgppValue option) \<times> CfgppParser) option" where
  "cfgpp_parse_string ml stod parser config_text =
     (case tokenize ml parser config_text of
        None \<Rightarrow> None
      | Some (ts, P0) \<Rightarrow>
          (let P1 = P0\<lparr>tokens := ts\<rparr> in
           if tokens P1 = [] then Some ((CFGPP_ERROR_INVALID_SYNTAX, None), P1)
           else
             (case parse_value (parse_fuel ts) stod (P1\<lparr>current_token_pos := 0\<rparr>) of
                None \<Rightarrow> None
              | Some (Throws, P2) \<Rightarrow> Some ((CFGPP_ERROR_MEMORY_ERROR, None), P2)
              | Some (Returns None, P2) \<Rightarrow> Some ((CFGPP_ERROR_INVALID_SYNTAX, None), P2)
              | Some (Returns (Some v), P2) \<Rightarrow> Some ((CFGPP_SUCCESS, Some v), P2))))"

text \<open>
  Two notions for the statements about the parser: the tokens that are left, and a result
  that keeps the tokens, does not move the cursor back and moves it forward when a value
  is returned.
\<close>

definition remaining :: "CfgppParser \<Rightarrow> nat" where
  "remaining P = length (tokens P) - current_token_pos P"

definition progresses :: "CfgppParser \<Rightarrow> (CfgppValue option cxx \<times> CfgppParser) option \<Rightarrow> bool" where
  "progresses P res \<longleftrightarrow>
     (\<forall>r P'. res = Some (r, P') \<longrightarrow>
        tokens P' = tokens P \<and> current_token_pos P \<le> current_token_pos P'
        \<and> (\<forall>v. r = Returns (Some v) \<longrightarrow> current_token_pos P < current_token_pos P'))"

text \<open>Two token sequences that are the same up to the token at index \<open>k\<close>, inclusive.\<close>

definition same_upto :: "nat \<Rightarrow> Token list \<Rightarrow> Token list \<Rightarrow> bool" where
  "same_upto k ts ts' \<longleftrightarrow> take (Suc k) ts' = take (Suc k) ts"

text \<open>Two token sequences that have the same \<open>k\<close> first tokens.\<close>

definition same_before :: "nat \<Rightarrow> Token list \<Rightarrow> Token list \<Rightarrow> bool" where
  "same_before k ts ts' \<longleftrightarrow> take k ts' = take k ts"

section \<open>The schema engine\<close>

text \<open>
  \<^verbatim>\<open>struct CfgppSchema\<close>. The three \<^verbatim>\<open>unordered_map\<close>s are association lists with distinct
  keys; the order of a list is the order in which a range-\<^verbatim>\<open>for\<close> visits the map, which
  the language leaves to the implementation. The code visits \<^verbatim>\<open>object_schemas\<close> and the
  field maps in it in order (in \<^verbatim>\<open>cfgpp_validate_value\<close>); it only looks keys up in
  \<^verbatim>\<open>enum_definitions\<close>, and it never uses \<^verbatim>\<open>type_definitions\<close>.
\<close>

record CfgppSchema =
  type_definitions :: "(string \<times> string) list"
  enum_definitions :: "(string \<times> string list) list"
  object_schemas :: "(string \<times> (string \<times> string) list) list"
  schema_last_error :: string

definition cfgpp_schema_create :: CfgppSchema where
  "cfgpp_schema_create =
     \<lparr>type_definitions = [], enum_definitions = [], object_schemas = [],
      schema_last_error = []\<rparr>"

definition validate_type :: "CfgppSchema \<Rightarrow> string \<Rightarrow> CfgppValue \<Rightarrow> bool" where
  "validate_type schema expected_type v =
     (if expected_type = ''string'' then value_type v = CFGPP_TYPE_STRING
      else if expected_type = ''integer'' then value_type v = CFGPP_TYPE_INTEGER
      else if expected_type = ''double'' then value_type v = CFGPP_TYPE_DOUBLE
      else if expected_type = ''boolean'' then value_type v = CFGPP_TYPE_BOOLEAN
      else if expected_type = ''array'' then value_type v = CFGPP_TYPE_ARRAY
      else if expected_type = ''object'' then value_type v = CFGPP_TYPE_OBJECT
      else
        (case map_of (enum_definitions schema) expected_type of
           Some valid_values \<Rightarrow>
             (case v of VEnum enum_value \<Rightarrow> enum_value \<in> set valid_values | _ \<Rightarrow> False)
         | None \<Rightarrow> False))"

subsection \<open>Reading a schema\<close>

text \<open>The lines that \<^verbatim>\<open>std::getline\<close> delivers: a last line needs no newline, and a
  newline at the very end opens no further line.\<close>

fun getlines :: "string \<Rightarrow> string \<Rightarrow> string list" where
  "getlines cur [] = (if cur = [] then [] else [cur])"
| "getlines cur (c # r) = (if c = CHR 0x0A then cur # getlines [] r else getlines (cur @ [c]) r)"

text \<open>\<^verbatim>\<open>s.erase(0, s.find_first_not_of(cs))\<close> and \<^verbatim>\<open>s.erase(s.find_last_not_of(cs) + 1)\<close>;
  \<^verbatim>\<open>npos + 1\<close> is 0, so both empty a string that has no other character.\<close>

definition trim_left :: "string \<Rightarrow> string \<Rightarrow> string" where
  "trim_left cs s = dropWhile (\<lambda>c. c \<in> set cs) s"

definition trim_right :: "string \<Rightarrow> string \<Rightarrow> string" where
  "trim_right cs s = rev (dropWhile (\<lambda>c. c \<in> set cs) (rev s))"

definition trim :: "string \<Rightarrow> string" where
  "trim s = trim_right [CHR '' '', CHR 0x09] (trim_left [CHR '' '', CHR 0x09] s)"

text \<open>\<^verbatim>\<open>s.find(c)\<close> and \<^verbatim>\<open>s.find(str)\<close>; \<open>None\<close> is \<^verbatim>\<open>npos\<close>.\<close>

definition find_char :: "char \<Rightarrow> string \<Rightarrow> nat option" where
  "find_char c s = (if c \<in> set s then Some (length (takeWhile (\<lambda>x. x \<noteq> c) s)) else None)"

fun find_str :: "string \<Rightarrow> string \<Rightarrow> nat option" where
  "find_str p [] = (if p = [] then Some 0 else None)"
| "find_str p (c # r) =
     (if starts_with p (c # r) then Some 0 else map_option Suc (find_str p r))"

text \<open>
  The test of the enum branch on a trimmed line, \<^verbatim>\<open>line.find("enum ") == 0\<close> and a brace
  somewhere, with the name it cuts out: \<^verbatim>\<open>line.substr(5, brace_pos - 5)\<close>, trimmed.
\<close>

definition enum_declaration :: "string \<Rightarrow> string option" where
  "enum_declaration line =
     (if find_str ''enum '' line = Some 0 then
        (case find_char CHR ''{'' line of
           Some brace_pos \<Rightarrow> Some (trim (take (brace_pos - 5) (drop 5 line)))
         | None \<Rightarrow> None)
      else None)"

text \<open>
  One turn of the \<^verbatim>\<open>while (std::getline(stream, line))\<close> loop of
  \<^verbatim>\<open>cfgpp_schema_parse_string\<close>, on the schema and \<^verbatim>\<open>current_object\<close>. The enum branch
  stores the empty vector \<^verbatim>\<open>values\<close>: nothing is ever pushed to it. The field branch is
  \<^verbatim>\<open>schema->object_schemas[current_object][field_name] = field_type\<close>, on two maps that
  validation visits in order, so it takes the choice \<open>place\<close> of the standard library.
\<close>

definition set_field ::
    "(string list \<Rightarrow> string \<Rightarrow> nat) \<Rightarrow> string \<Rightarrow> string \<Rightarrow> string \<Rightarrow> CfgppSchema \<Rightarrow> CfgppSchema" where
  "set_field place obj field_name field_type schema =
     schema\<lparr>object_schemas :=
       map_set_at place obj
         (map_set_at place field_name field_type
            (case map_of (object_schemas schema) obj of Some schema_fields \<Rightarrow> schema_fields | None \<Rightarrow> []))
         (object_schemas schema)\<rparr>"

definition schema_line ::
    "(string list \<Rightarrow> string \<Rightarrow> nat) \<Rightarrow> CfgppSchema \<times> string \<Rightarrow> string \<Rightarrow> CfgppSchema \<times> string" where
  "schema_line place st raw =
     (let schema = fst st; current_object = snd st; line = trim raw in
      if line = [] \<or> hd line = CHR ''/'' \<or> hd line = CHR ''#'' then st
      else
        (let schema1 =
               (case enum_declaration line of
                  Some enum_name \<Rightarrow>
                    schema\<lparr>enum_definitions := map_set enum_name [] (enum_definitions schema)\<rparr>
                | None \<Rightarrow> schema);
             current_object1 =
               (case find_char CHR ''{'' line of
                  Some brace_pos \<Rightarrow>
                    if find_str ''enum'' line = None then trim (take brace_pos line)
                    else current_object
                | None \<Rightarrow> current_object);
             schema2 =
               (case find_char CHR '':'' line of
                  Some colon_pos \<Rightarrow>
                    if current_object1 \<noteq> [] then
                      set_field place current_object1 (trim (take colon_pos line))
                        (trim_right [CHR '' '', CHR 0x09, CHR '';'']
                           (trim_left [CHR '' '', CHR 0x09] (drop (colon_pos + 1) line)))
                        schema1
                    else schema1
                | None \<Rightarrow> schema1);
             current_object2 =
               (if find_char CHR ''}'' line \<noteq> None then [] else current_object1)
         in (schema2, current_object2)))"

definition cfgpp_schema_parse_string ::
    "(string list \<Rightarrow> string \<Rightarrow> nat) \<Rightarrow> CfgppSchema \<Rightarrow> string \<Rightarrow> CfgppResult \<times> CfgppSchema" where
  "cfgpp_schema_parse_string place schema schema_text =
     (CFGPP_SUCCESS, fst (foldl (schema_line place) (schema, []) (getlines [] schema_text)))"

subsection \<open>Validation\<close>

text \<open>
  The inner loop of \<^verbatim>\<open>cfgpp_validate_value\<close> over the fields of one object schema, on
  \<^verbatim>\<open>errors\<close> and \<^verbatim>\<open>matches\<close>; the outer loop over the object schemas, which leaves at the
  first schema that matches. \<^verbatim>\<open>errors\<close> is declared before the outer loop and is never
  reset.
\<close>

fun validate_fields ::
    "CfgppSchema \<Rightarrow> (string \<times> CfgppValue) list \<Rightarrow> (string \<times> string) list \<Rightarrow> string \<Rightarrow> bool
       \<Rightarrow> string \<times> bool" where
  "validate_fields schema m [] errors matches = (errors, matches)"
| "validate_fields schema m ((field_name, field_type) # rest) errors matches =
     (case map_of m field_name of
        None \<Rightarrow>
          validate_fields schema m rest
            (errors @ ''Missing required field: '' @ field_name @ ''; '') False
      | Some v \<Rightarrow>
          if \<not> validate_type schema field_type v then
            validate_fields schema m rest
              (errors @ ''Field '' @ [CHR 0x27] @ field_name @ [CHR 0x27]
                 @ '' has wrong type, expected '' @ field_type @ ''; '')
              False
          else validate_fields schema m rest errors matches)"

fun validate_schemas ::
    "CfgppSchema \<Rightarrow> (string \<times> CfgppValue) list \<Rightarrow> (string \<times> (string \<times> string) list) list
       \<Rightarrow> string \<Rightarrow> string" where
  "validate_schemas schema m [] errors = errors"
| "validate_schemas schema m ((schema_name, schema_fields) # rest) errors =
     (case validate_fields schema m schema_fields errors True of
        (errors', matches) \<Rightarrow>
          if matches then errors' else validate_schemas schema m rest errors')"

text \<open>
  \<^verbatim>\<open>cfgpp_validate_value\<close>: the result code, the text copied to \<^verbatim>\<open>error_buffer\<close> if it
  fits, and \<^verbatim>\<open>*error_length\<close>.
\<close>

definition validation_errors :: "CfgppSchema \<Rightarrow> CfgppValue \<Rightarrow> string" where
  "validation_errors schema v =
     (case v of
        VObject m \<Rightarrow> validate_schemas schema m (object_schemas schema) []
      | _ \<Rightarrow> [])"

definition cfgpp_validate_value ::
    "CfgppSchema \<Rightarrow> CfgppValue \<Rightarrow> nat \<Rightarrow> CfgppResult \<times> string option \<times> nat" where
  "cfgpp_validate_value schema v buffer_size =
     (let errors = validation_errors schema v in
      if buffer_size < length errors + 1 then (CFGPP_ERROR_BUFFER_TOO_SMALL, None, length errors)
      else (if errors = [] then CFGPP_SUCCESS else CFGPP_ERROR_INVALID_SYNTAX,
            Some errors, length errors))"

section \<open>Properties of the binary record decoder\<close>

lemma variant_short_buffer:
  "dsize < sizeof_header \<Longrightarrow>
     cfgpp_from_labview_variant variant_data dsize = Some (CFGPP_ERROR_INVALID_PARAMETER, None)"
  by (simp add: cfgpp_from_labview_variant_def)

lemmas decoder_defs =
  cfgpp_from_labview_cluster_def cfgpp_from_labview_variant_def sizeof_header_def
  read_header_def peek_def read_scalar_def success_def labview_type_defs

text \<open>
  C1, as stated, fails. The buffer holds a record of type code 0 (\<^verbatim>\<open>LABVIEW_TYPE_VOID\<close>, which
  the decoder does not support) with no payload, and a boolean record. The scalar decode
  of the first record fails, and the cluster decode still returns \<^verbatim>\<open>CFGPP_SUCCESS\<close> with an
  object that lacks the field \<open>rate\<close>.
\<close>

theorem cluster_failed_field_counterexample:
  "cfgpp_from_labview_variant
     [0,0,0,0, 0,0,0,0, 0,0,0,0, 0,0,0,0, 33,0,0,0, 0,0,0,0, 1,0,0,0, 0,0,0,0, 1] 16
     = Some (CFGPP_ERROR_INVALID_PARAMETER, None)
   \<and> cfgpp_from_labview_cluster
       [0,0,0,0, 0,0,0,0, 0,0,0,0, 0,0,0,0, 33,0,0,0, 0,0,0,0, 1,0,0,0, 0,0,0,0, 1] 33
       [''rate'', ''enabled'']
     = Some (CFGPP_SUCCESS, Some (VObject [(''enabled'', VBoolean True)]))"
  by (simp add: decoder_defs)

text \<open>
  C1, amended: a cluster decode with at least one field name that returns at all returns
  \<^verbatim>\<open>CFGPP_SUCCESS\<close> and an object, whatever the decodes of its fields return; and when the
  decode of a field does not return \<^verbatim>\<open>CFGPP_SUCCESS\<close>, the loop stores nothing under the
  name of the field and goes on with the next name, behind the payload that the header
  of the failed field declares.
\<close>

theorem cluster_decode_is_lenient:
  "(field_names \<noteq> [] \<and> cfgpp_from_labview_cluster cluster_data dsize field_names = Some r
      \<longrightarrow> (\<exists>m. r = (CFGPP_SUCCESS, Some (VObject m))))
   \<and> (offset < dsize \<and> offset + sizeof_header \<le> dsize
        \<and> read_header cluster_data offset = Some header
        \<and> cfgpp_from_labview_variant (drop offset cluster_data)
             (unat (data_size header) + sizeof_header) = Some (field_result, field_value)
        \<and> field_result \<noteq> CFGPP_SUCCESS
      \<longrightarrow> cluster_loop cluster_data dsize (name # names) offset m
            = cluster_loop cluster_data dsize names
                (offset + sizeof_header + unat (data_size header)) m)"
  by (auto simp add: cfgpp_from_labview_cluster_def split: option.splits)

theorem cluster_decode_is_lenient_witness:
  "[''rate'', ''enabled''] \<noteq> []
   \<and> cfgpp_from_labview_cluster
       [0,0,0,0, 0,0,0,0, 0,0,0,0, 0,0,0,0, 33,0,0,0, 0,0,0,0, 1,0,0,0, 0,0,0,0, 1] 33
       [''rate'', ''enabled'']
     = Some (CFGPP_SUCCESS, Some (VObject [(''enabled'', VBoolean True)]))
   \<and> (\<exists>m. (CFGPP_SUCCESS, Some (VObject [(''enabled'', VBoolean True)]))
           = (CFGPP_SUCCESS, Some (VObject m)))
   \<and> read_header
       [0,0,0,0, 0,0,0,0, 0,0,0,0, 0,0,0,0, 33,0,0,0, 0,0,0,0, 1,0,0,0, 0,0,0,0, 1] 0
     = Some \<lparr>type_code = 0, flags = 0, data_size = 0, dimensions = 0\<rparr>
   \<and> cluster_loop
       [0,0,0,0, 0,0,0,0, 0,0,0,0, 0,0,0,0, 33,0,0,0, 0,0,0,0, 1,0,0,0, 0,0,0,0, 1] 33
       [''rate'', ''enabled''] 0 []
     = cluster_loop
         [0,0,0,0, 0,0,0,0, 0,0,0,0, 0,0,0,0, 33,0,0,0, 0,0,0,0, 1,0,0,0, 0,0,0,0, 1] 33
         [''enabled''] 16 []"
proof -
  let ?buf = "[0,0,0,0, 0,0,0,0, 0,0,0,0, 0,0,0,0, 33,0,0,0, 0,0,0,0, 1,0,0,0, 0,0,0,0, 1] :: byte list"
  let ?header = "\<lparr>type_code = 0, flags = 0, data_size = 0, dimensions = 0\<rparr> :: LabViewDataHeader"
  have names: "[''rate'', ''enabled''] \<noteq> []"
    by simp
  have cluster: "cfgpp_from_labview_cluster ?buf 33 [''rate'', ''enabled'']
      = Some (CFGPP_SUCCESS, Some (VObject [(''enabled'', VBoolean True)]))"
    by (simp add: decoder_defs)
  have header: "read_header ?buf 0 = Some ?header"
    by (simp add: decoder_defs)
  have variant: "cfgpp_from_labview_variant (drop 0 ?buf) (unat (data_size ?header) + sizeof_header)
      = Some (CFGPP_ERROR_INVALID_PARAMETER, None)"
    by (simp add: decoder_defs)
  have bounds: "(0::nat) < 33 \<and> 0 + sizeof_header \<le> 33"
    by (simp add: sizeof_header_def)
  from cluster_decode_is_lenient
         [of "[''rate'', ''enabled'']" ?buf 33
             "(CFGPP_SUCCESS, Some (VObject [(''enabled'', VBoolean True)]))" 0 ?header
             CFGPP_ERROR_INVALID_PARAMETER None "''rate''" "[''enabled'']" "[]"]
       names cluster header variant bounds
  show ?thesis
    by (simp add: sizeof_header_def)
qed

text \<open>
  C2: a buffer shorter than the header is refused before anything is read
  (\<open>variant_short_buffer\<close>), but the payload is read without a look at its size. The
  buffer below holds the 16 bytes of a header of type \<^verbatim>\<open>LABVIEW_TYPE_I32\<close> that declares a
  payload of 4 bytes, and nothing else. When the four bytes behind it in memory are
  readable they are decoded, here as the integer 42; when they are not, the read leaves
  the memory of the caller.
\<close>

theorem variant_reads_past_buffer:
  "cfgpp_from_labview_variant [3,0,0,0, 0,0,0,0, 4,0,0,0, 0,0,0,0, 42,0,0,0] 16
     = Some (CFGPP_SUCCESS, Some (VInteger 42))
   \<and> cfgpp_from_labview_variant [3,0,0,0, 0,0,0,0, 4,0,0,0, 0,0,0,0] 16 = None"
  by (simp add: decoder_defs)

section \<open>Properties of the schema engine\<close>

lemma validate_fields_satisfied:
  "\<forall>(f, t) \<in> set schema_fields. \<exists>v. map_of m f = Some v \<and> validate_type schema t v \<Longrightarrow>
     validate_fields schema m schema_fields errors matches = (errors, matches)"
  by (induction schema_fields) auto

text \<open>The value is reported valid when the schema that the loop visits first is satisfied.\<close>

lemma validate_first_schema_satisfied:
  "\<forall>(f, t) \<in> set schema_fields. \<exists>v. map_of m f = Some v \<and> validate_type schema t v \<Longrightarrow>
     validate_schemas schema m ((schema_name, schema_fields) # rest) [] = []"
  by (simp add: validate_fields_satisfied)

text \<open>
  C3: the definition has the object schemas \<open>A\<close> with a field \<open>y\<close> and \<open>B\<close> with a field
  \<open>x\<close>, both integers, and the loop visits \<open>A\<close> first. The object with the one field
  \<open>x = 5\<close> satisfies \<open>B\<close>; the loop stops there, and the message that \<open>A\<close> left in
  \<^verbatim>\<open>errors\<close> is the result.
\<close>

theorem validate_keeps_errors_of_earlier_schema:
  "validation_errors
     (cfgpp_schema_create
        \<lparr>object_schemas := [(''A'', [(''y'', ''integer'')]), (''B'', [(''x'', ''integer'')])]\<rparr>)
     (VObject [(''x'', VInteger 5)])
     = ''Missing required field: y; ''
   \<and> cfgpp_validate_value
       (cfgpp_schema_create
          \<lparr>object_schemas := [(''A'', [(''y'', ''integer'')]), (''B'', [(''x'', ''integer'')])]\<rparr>)
       (VObject [(''x'', VInteger 5)]) 512
     = (CFGPP_ERROR_INVALID_SYNTAX, Some ''Missing required field: y; '', 27)"
  by (simp add: validation_errors_def cfgpp_validate_value_def validate_type_def)

text \<open>
  C5: against a schema definition whose only object schema is \<open>Cfg\<close> with the field \<open>x\<close> of
  type \<open>integer\<close>, the object \<open>{x: Integer(5)}\<close> has no violation, and the object
  \<open>{x: String("s")}\<close> has the one violation \<^verbatim>\<open>Field 'x' has wrong type, expected integer\<close>.
\<close>

theorem validate_cfg_example:
  "validation_errors (schema\<lparr>object_schemas := [(''Cfg'', [(''x'', ''integer'')])]\<rparr>)
     (VObject [(''x'', VInteger 5)]) = []
   \<and> cfgpp_validate_value (schema\<lparr>object_schemas := [(''Cfg'', [(''x'', ''integer'')])]\<rparr>)
       (VObject [(''x'', VInteger 5)]) 512 = (CFGPP_SUCCESS, Some [], 0)
   \<and> validation_errors (schema\<lparr>object_schemas := [(''Cfg'', [(''x'', ''integer'')])]\<rparr>)
       (VObject [(''x'', VString ''s'')])
     = ''Field '' @ [CHR 0x27] @ ''x'' @ [CHR 0x27] @ '' has wrong type, expected integer; ''
   \<and> cfgpp_validate_value (schema\<lparr>object_schemas := [(''Cfg'', [(''x'', ''integer'')])]\<rparr>)
       (VObject [(''x'', VString ''s'')]) 512
     = (CFGPP_ERROR_INVALID_SYNTAX,
        Some (''Field '' @ [CHR 0x27] @ ''x'' @ [CHR 0x27]
                @ '' has wrong type, expected integer; ''),
        44)"
  by (simp add: validation_errors_def cfgpp_validate_value_def validate_type_def)

subsection \<open>Enum types\<close>

lemma map_of_map_set: "map_of (map_set k v m) = (map_of m)(k \<mapsto> v)"
  by (induction m) auto

lemma find_str_Some0: "find_str p s = Some 0 \<longleftrightarrow> starts_with p s"
  by (cases s) (auto simp: starts_with_def)

lemma enum_declaration_skipped:
  "line = [] \<or> hd line = CHR ''/'' \<or> hd line = CHR ''#'' \<Longrightarrow> enum_declaration line = None"
  by (cases line) (auto simp: enum_declaration_def find_str_Some0 starts_with_def)

lemma enum_definitions_set_field [simp]:
  "enum_definitions (set_field place obj f t schema) = enum_definitions schema"
  by (simp add: set_field_def)

lemma schema_line_enum_definitions:
  "enum_definitions (fst (schema_line place st raw)) =
     (case enum_declaration (trim raw) of
        Some n \<Rightarrow> map_set n [] (enum_definitions (fst st))
      | None \<Rightarrow> enum_definitions (fst st))"
  by (auto simp: schema_line_def Let_def enum_declaration_skipped split: option.splits)

lemma schema_line_members:
  "map_of (enum_definitions (fst (schema_line place st raw))) n = Some ms \<Longrightarrow>
     ms = [] \<or> map_of (enum_definitions (fst st)) n = Some ms"
  by (auto simp: schema_line_enum_definitions map_of_map_set split: option.splits if_splits)

lemma schema_line_keeps:
  "map_of (enum_definitions (fst st)) n = Some [] \<Longrightarrow>
     map_of (enum_definitions (fst (schema_line place st raw))) n = Some []"
  by (auto simp: schema_line_enum_definitions map_of_map_set split: option.splits)

lemma schema_line_records:
  "enum_declaration (trim raw) = Some n \<Longrightarrow>
     map_of (enum_definitions (fst (schema_line place st raw))) n = Some []"
  by (auto simp: schema_line_enum_definitions map_of_map_set)

lemma foldl_schema_line_members:
  "map_of (enum_definitions (fst (foldl (schema_line place) st lines))) n = Some ms \<Longrightarrow>
     ms = [] \<or> map_of (enum_definitions (fst st)) n = Some ms"
proof (induction lines arbitrary: st)
  case Nil
  then show ?case by simp
next
  case (Cons raw lines)
  from Cons.IH [of "schema_line place st raw"] Cons.prems
  have "ms = [] \<or> map_of (enum_definitions (fst (schema_line place st raw))) n = Some ms"
    by simp
  then show ?case
    using schema_line_members by blast
qed

lemma foldl_schema_line_keeps:
  "map_of (enum_definitions (fst st)) n = Some [] \<Longrightarrow>
     map_of (enum_definitions (fst (foldl (schema_line place) st lines))) n = Some []"
proof (induction lines arbitrary: st)
  case Nil
  then show ?case by simp
next
  case (Cons raw lines)
  from Cons.IH [of "schema_line place st raw"] schema_line_keeps [OF Cons.prems]
  show ?case by simp
qed

lemma foldl_schema_line_records:
  "raw \<in> set lines \<Longrightarrow> enum_declaration (trim raw) = Some n \<Longrightarrow>
     map_of (enum_definitions (fst (foldl (schema_line place) st lines))) n = Some []"
proof (induction lines arbitrary: st)
  case Nil
  then show ?case by simp
next
  case (Cons a lines)
  show ?case
  proof (cases "raw \<in> set lines")
    case True
    with Cons show ?thesis by simp
  next
    case False
    with Cons.prems have "raw = a" by simp
    with Cons.prems show ?thesis
      by (simp add: foldl_schema_line_keeps schema_line_records)
  qed
qed

lemma validate_type_no_members:
  "map_of (enum_definitions schema) n = Some [] \<Longrightarrow>
   n \<notin> {''string'', ''integer'', ''double'', ''boolean'', ''array'', ''object''} \<Longrightarrow>
     \<not> validate_type schema n v"
  by (auto simp: validate_type_def split: CfgppValue.splits)

text \<open>
  C4, as stated, fails: \<^verbatim>\<open>validate_type\<close> compares the expected type with the six
  built-in names before it looks for an enum type. The schema text
  \<^verbatim>\<open>enum integer { A, B }\<close> declares an enum type of the name \<open>integer\<close>, recorded without
  members, and \<^verbatim>\<open>validate_type("integer", v)\<close> is true for the value \<open>Integer(5)\<close>.
\<close>

theorem enum_named_as_builtin_counterexample:
  "map_of (enum_definitions
             (snd (cfgpp_schema_parse_string (\<lambda>keys k. 0) cfgpp_schema_create
                     ''enum integer { A, B }'')))
     ''integer'' = Some []
   \<and> validate_type (snd (cfgpp_schema_parse_string (\<lambda>keys k. 0) cfgpp_schema_create
                     ''enum integer { A, B }''))
       ''integer'' (VInteger 5)"
  by code_simp

text \<open>
  C4, amended: reading a schema text into a fresh schema succeeds; every line that
  declares an enum type records its name with the empty member list; every enum type of
  the result has the empty member list; and for an enum type whose name is none of the six
  built-in type names, \<^verbatim>\<open>validate_type\<close> is false for every value.
\<close>

theorem schema_enums_have_no_members:
  assumes "cfgpp_schema_parse_string place cfgpp_schema_create schema_text = (r, schema)"
  shows "r = CFGPP_SUCCESS
       \<and> (\<forall>raw \<in> set (getlines [] schema_text). \<forall>n.
            enum_declaration (trim raw) = Some n \<longrightarrow> map_of (enum_definitions schema) n = Some [])
       \<and> (\<forall>n ms. map_of (enum_definitions schema) n = Some ms \<longrightarrow>
            ms = []
            \<and> (n \<notin> {''string'', ''integer'', ''double'', ''boolean'', ''array'', ''object''}
                 \<longrightarrow> (\<forall>v. \<not> validate_type schema n v)))"
proof -
  from assms have r: "r = CFGPP_SUCCESS"
    and schema:
      "schema
         = fst (foldl (schema_line place) (cfgpp_schema_create, []) (getlines [] schema_text))"
    by (auto simp: cfgpp_schema_parse_string_def)
  have members: "ms = []" if "map_of (enum_definitions schema) n = Some ms" for n ms
    using foldl_schema_line_members
            [of place "(cfgpp_schema_create, [])" "getlines [] schema_text" n ms] that
    by (auto simp: schema cfgpp_schema_create_def)
  show ?thesis
  proof (intro conjI ballI allI impI)
    show "r = CFGPP_SUCCESS"
      by (rule r)
  next
    fix raw n
    assume "raw \<in> set (getlines [] schema_text)" and "enum_declaration (trim raw) = Some n"
    then show "map_of (enum_definitions schema) n = Some []"
      unfolding schema by (rule foldl_schema_line_records)
  next
    fix n ms
    assume "map_of (enum_definitions schema) n = Some ms"
    then show "ms = []"
      by (rule members)
  next
    fix n ms v
    assume recorded: "map_of (enum_definitions schema) n = Some ms"
      and other: "n \<notin> {''string'', ''integer'', ''double'', ''boolean'', ''array'', ''object''}"
    from recorded have "ms = []"
      by (rule members)
    with recorded have "map_of (enum_definitions schema) n = Some []"
      by simp
    from validate_type_no_members [OF this other]
    show "\<not> validate_type schema n v" .
  qed
qed

theorem schema_enums_have_no_members_witness:
  "cfgpp_schema_parse_string (\<lambda>keys k. 0) cfgpp_schema_create ''enum Color { RED }''
     = (CFGPP_SUCCESS, cfgpp_schema_create\<lparr>enum_definitions := [(''Color'', [])]\<rparr>)
   \<and> ''enum Color { RED }'' \<in> set (getlines [] ''enum Color { RED }'')
   \<and> enum_declaration (trim ''enum Color { RED }'') = Some ''Color''
   \<and> map_of (enum_definitions (cfgpp_schema_create\<lparr>enum_definitions := [(''Color'', [])]\<rparr>))
       ''Color'' = Some []
   \<and> ''Color'' \<notin> {''string'', ''integer'', ''double'', ''boolean'', ''array'', ''object''}
   \<and> \<not> validate_type (cfgpp_schema_create\<lparr>enum_definitions := [(''Color'', [])]\<rparr>)
         ''Color'' (VEnum ''RED'')"
proof -
  have parse: "cfgpp_schema_parse_string (\<lambda>keys k. 0) cfgpp_schema_create ''enum Color { RED }''
     = (CFGPP_SUCCESS, cfgpp_schema_create\<lparr>enum_definitions := [(''Color'', [])]\<rparr>)"
    by code_simp
  have line: "''enum Color { RED }'' \<in> set (getlines [] ''enum Color { RED }'')"
    by code_simp
  have decl: "enum_declaration (trim ''enum Color { RED }'') = Some ''Color''"
    by code_simp
  have nb: "''Color'' \<notin> {''string'', ''integer'', ''double'', ''boolean'', ''array'', ''object''}"
    by simp
  note claim = schema_enums_have_no_members [OF parse]
  note recorded = claim [THEN conjunct2, THEN conjunct1, rule_format, OF line decl]
  note members = claim [THEN conjunct2, THEN conjunct2, rule_format, OF recorded]
  note rejected = members [THEN conjunct2, rule_format, OF nb]
  from parse line decl recorded nb rejected show ?thesis
    by (intro conjI)
qed

subsection \<open>The order of the schemas\<close>

text \<open>
  The choice of the standard library moves the entries of a map and changes no lookup.
  It decides which object schema validation visits first: of the two types of the schema
  text below, \<open>A\<close> comes first when new keys are visited last, and \<open>B\<close> when new keys are
  visited first.
\<close>

lemma map_of_map_set_at:
  "map_of (map_set_at place k v m) = (map_of m)(k \<mapsto> v)"
proof (cases "k \<in> set (map fst m)")
  case True
  then show ?thesis
    by (simp add: map_set_at_def map_of_map_set)
next
  case False
  let ?i = "place (map fst m) k"
  from False have "k \<notin> fst ` set (take ?i m)"
    by (auto dest: in_set_takeD)
  then have none: "map_of (take ?i m) k = None"
    by (simp add: map_of_eq_None_iff)
  have "map_of m = map_of (take ?i m @ drop ?i m)"
    by simp
  also have "\<dots> = map_of (drop ?i m) ++ map_of (take ?i m)"
    by (rule map_of_append)
  finally have m: "map_of m = map_of (drop ?i m) ++ map_of (take ?i m)" .
  from False have "map_of (map_set_at place k v m)
      = (map_of (drop ?i m))(k \<mapsto> v) ++ map_of (take ?i m)"
    by (simp add: map_set_at_def)
  also from none have "\<dots> = (map_of (drop ?i m) ++ map_of (take ?i m))(k \<mapsto> v)"
    by (auto simp: map_add_def fun_eq_iff split: option.splits)
  finally show ?thesis
    by (simp add: m [symmetric])
qed

lemma map_set_absent: "k \<notin> set (map fst m) \<Longrightarrow> map_set k v m = m @ [(k, v)]"
  by (induction m) auto

lemma map_set_at_end: "map_set_at (\<lambda>keys k. length keys) k v m = map_set k v m"
  by (simp add: map_set_at_def map_set_absent)

lemma schema_visiting_order:
  "object_schemas (snd (cfgpp_schema_parse_string (\<lambda>keys k. length keys) cfgpp_schema_create
      (''A {'' @ [CHR 0x0A] @ ''x: integer'' @ [CHR 0x0A] @ ''}'' @ [CHR 0x0A]
         @ ''B {'' @ [CHR 0x0A] @ ''y: string'' @ [CHR 0x0A] @ ''}'')))
     = [(''A'', [(''x'', ''integer'')]), (''B'', [(''y'', ''string'')])]
   \<and> object_schemas (snd (cfgpp_schema_parse_string (\<lambda>keys k. 0) cfgpp_schema_create
      (''A {'' @ [CHR 0x0A] @ ''x: integer'' @ [CHR 0x0A] @ ''}'' @ [CHR 0x0A]
         @ ''B {'' @ [CHR 0x0A] @ ''y: string'' @ [CHR 0x0A] @ ''}'')))
     = [(''B'', [(''y'', ''string'')]), (''A'', [(''x'', ''integer'')])]"
  by code_simp

section \<open>Properties of the lexer\<close>

lemmas matcher_defs =
  match_comment_def match_include_def match_env_var_def match_string_def match_number_def
  match_boolean_def match_enum_def match_null_def match_operator_def match_namespace_def
  match_identifier_def match_punctuation_def

lemma first_match_positive:
  "first_match (patterns ml) s = Some (ty, n) \<Longrightarrow> 0 < n"
  by (auto simp: patterns_def matcher_defs Let_def split: option.splits if_splits list.splits)

lemma scan_returns: "scan ml s line column result \<noteq> None"
proof (induction ml s line column result rule: scan.induct)
  case (1 ml s line column result)
  show ?case
  proof (cases "skip_space s line column")
    case (fields s' l c)
    show ?thesis
    proof (cases s')
      case Nil
      with fields show ?thesis by (simp add: scan.simps)
    next
      case (Cons ch r)
      show ?thesis
      proof (cases "first_match (patterns ml) (ch # r)")
        case None
        with fields Cons show ?thesis by (simp add: scan.simps)
      next
        case (Some m)
        obtain ty n where m: "m = (ty, n)" by (cases m)
        with Some have pos: "n \<noteq> 0" using first_match_positive by fastforce
        from "1.IH" [of "ch # r" "(l, c)" ch r l c "(ty, n)" ty n] fields Cons Some m pos
        show ?thesis
          by (simp add: scan.simps)
      qed
    qed
  qed
qed

lemma first_match_brace:
  "first_match (patterns ml) (CHR ''{'' # r) = Some (PUNCTUATION, 1)"
  by (simp add: patterns_def matcher_defs starts_with_def is_digit_def is_ident_start_def
        split: list.splits)

lemma scan_brace_tokens:
  "scan ml s line column result = Some (Inr ts) \<Longrightarrow>
   \<forall>t \<in> set result. tok_value t = ''{'' \<longrightarrow> tok_type t = PUNCTUATION \<Longrightarrow>
   \<forall>t \<in> set ts. tok_value t = ''{'' \<longrightarrow> tok_type t = PUNCTUATION"
proof (induction ml s line column result rule: scan.induct)
  case (1 ml s line column result)
  show ?case
  proof (cases "skip_space s line column")
    case (fields s' l c)
    show ?thesis
    proof (cases s')
      case Nil
      with fields "1.prems" show ?thesis by (auto simp: scan.simps)
    next
      case (Cons ch r)
      show ?thesis
      proof (cases "first_match (patterns ml) (ch # r)")
        case None
        with fields Cons "1.prems" show ?thesis by (simp add: scan.simps)
      next
        case (Some m)
        obtain ty n where m: "m = (ty, n)" by (cases m)
        with Some have pos: "n \<noteq> 0" using first_match_positive by fastforce
        have tok: "ty = PUNCTUATION" if "take n (ch # r) = ''{''"
        proof -
          from that pos have "ch = CHR ''{''" by (cases n) auto
          with Some m first_match_brace [of ml r] show ?thesis by simp
        qed
        let ?result = "if ty = COMMENT then result else result @ [Token ty (take n (ch # r)) l c]"
        from "1.prems"(2) tok
        have inv: "\<forall>t \<in> set ?result. tok_value t = ''{'' \<longrightarrow> tok_type t = PUNCTUATION"
          by auto
        from "1.prems"(1) fields Cons Some m pos
        have "scan ml (drop n (ch # r)) l (c + n) ?result = Some (Inr ts)"
          by (simp add: scan.simps)
        from "1.IH" [of "ch # r" "(l, c)" ch r l c "(ty, n)" ty n, OF _ _ _ _ _ _ this inv]
          fields Cons Some m pos
        show ?thesis by simp
      qed
    qed
  qed
qed

lemma tokenize_returns: "tokenize ml parser text \<noteq> None"
  using scan_returns [of ml "text" 1 1 "[]"]
  by (auto simp: tokenize_def split: option.splits sum.splits)

lemma tokenize_brace_tokens:
  "tokenize ml parser text = Some (ts, P) \<Longrightarrow> t \<in> set ts \<Longrightarrow> tok_value t = ''{'' \<Longrightarrow>
     tok_type t = PUNCTUATION"
  using scan_brace_tokens [of ml "text" 1 1 "[]"]
  by (auto simp: tokenize_def split: option.splits sum.splits)


lemma skip_space_stops:
  "skip_space s l c = (ch # r, l', c') \<Longrightarrow> \<not> isspace ch \<and> ch \<in> set s \<and> set r \<subseteq> set s"
  by (induction s l c rule: skip_space.induct) (auto split: if_splits)

lemma scan_unexpected:
  "scan ml s line column result = Some (Inl (ch, l, c)) \<Longrightarrow> \<not> isspace ch \<and> ch \<in> set s"
proof (induction ml s line column result rule: scan.induct)
  case (1 ml s line column result)
  show ?case
  proof (cases "skip_space s line column")
    case (fields s' l' c')
    show ?thesis
    proof (cases s')
      case Nil
      with fields "1.prems" show ?thesis by (simp add: scan.simps)
    next
      case (Cons ch' r)
      note stops = skip_space_stops [OF fields [unfolded Cons]]
      show ?thesis
      proof (cases "first_match (patterns ml) (ch' # r)")
        case None
        with fields Cons "1.prems" stops show ?thesis by (simp add: scan.simps)
      next
        case (Some m)
        obtain ty n where m: "m = (ty, n)" by (cases m)
        with Some have pos: "n \<noteq> 0" using first_match_positive by fastforce
        let ?result = "if ty = COMMENT then result else result @ [Token ty (take n (ch' # r)) l' c']"
        from "1.prems" fields Cons Some m pos
        have "scan ml (drop n (ch' # r)) l' (c' + n) ?result = Some (Inl (ch, l, c))"
          by (simp add: scan.simps)
        from "1.IH" [of "ch' # r" "(l', c')" ch' r l' c' "(ty, n)" ty n, OF _ _ _ _ _ _ this]
          fields Cons Some m pos
        have "\<not> isspace ch \<and> ch \<in> set (drop n (ch' # r))"
          by simp
        moreover have "set (drop n (ch' # r)) \<subseteq> set s"
          using stops set_drop_subset [of n "ch' # r"] by auto
        ultimately show ?thesis by blast
      qed
    qed
  qed
qed

lemma scan_tokens_end:
  "scan ml s line column result = Some (Inr ts) \<Longrightarrow> ts \<noteq> [] \<and> tok_type (last ts) = END_OF_FILE"
proof (induction ml s line column result rule: scan.induct)
  case (1 ml s line column result)
  show ?case
  proof (cases "skip_space s line column")
    case (fields s' l' c')
    show ?thesis
    proof (cases s')
      case Nil
      with fields "1.prems" show ?thesis by (auto simp: scan.simps)
    next
      case (Cons ch' r)
      show ?thesis
      proof (cases "first_match (patterns ml) (ch' # r)")
        case None
        with fields Cons "1.prems" show ?thesis by (simp add: scan.simps)
      next
        case (Some m)
        obtain ty n where m: "m = (ty, n)" by (cases m)
        with Some have pos: "n \<noteq> 0" using first_match_positive by fastforce
        let ?result = "if ty = COMMENT then result else result @ [Token ty (take n (ch' # r)) l' c']"
        from "1.prems" fields Cons Some m pos
        have "scan ml (drop n (ch' # r)) l' (c' + n) ?result = Some (Inr ts)"
          by (simp add: scan.simps)
        from "1.IH" [of "ch' # r" "(l', c')" ch' r l' c' "(ty, n)" ty n, OF _ _ _ _ _ _ this]
          fields Cons Some m pos
        show ?thesis by simp
      qed
    qed
  qed
qed

text \<open>
  What \<^verbatim>\<open>tokenize\<close> returns: tokens that end with the end-of-file token, and the parser as
  it was; or no token, and a parser whose message names a character of the text that is
  no white space.
\<close>

lemma tokenize_cases:
  assumes "tokenize ml parser config_text = Some (ts, P)"
  shows "(ts \<noteq> [] \<and> tok_type (last ts) = END_OF_FILE \<and> P = parser)
       \<or> (ts = [] \<and> (\<exists>ch l c. ch \<in> set config_text \<and> \<not> isspace ch
             \<and> P = parser\<lparr>last_error := ''Unexpected character: '' @ [ch],
                          last_error_line := int l, last_error_column := int c\<rparr>))"
proof (cases "scan ml config_text 1 1 []")
  case None
  with assms show ?thesis by (simp add: tokenize_def)
next
  case (Some res)
  show ?thesis
  proof (cases res)
    case (Inl e)
    obtain ch l c where e: "e = (ch, l, c)" by (cases e)
    from scan_unexpected [of ml config_text 1 1 "[]" ch l c] Some Inl e
    have "\<not> isspace ch \<and> ch \<in> set config_text"
      by simp
    with assms Some Inl e show ?thesis
      by (auto simp: tokenize_def)
  next
    case (Inr toks)
    from scan_tokens_end [of ml config_text 1 1 "[]" toks] Some Inr
    have "toks \<noteq> [] \<and> tok_type (last toks) = END_OF_FILE"
      by simp
    with assms Some Inr show ?thesis
      by (auto simp: tokenize_def)
  qed
qed

section \<open>Properties of the parser\<close>

subsection \<open>The parser returns\<close>

lemma progresses_None [simp]: "progresses P None"
  by (simp add: progresses_def)

lemma progresses_advance [simp]: "progresses P (Some (r, advance P))"
  by (simp add: progresses_def advance_def)

lemma progresses_fail [simp]:
  "progresses P (Some (Returns None, P))"
  "progresses P (Some (Returns None, P\<lparr>last_error := e\<rparr>))"
  "progresses P (Some (Returns None, (advance P)\<lparr>last_error := e\<rparr>))"
  by (simp_all add: progresses_def advance_def)

lemma progresses_weaken:
  "progresses P1 res \<Longrightarrow> tokens P1 = tokens P \<Longrightarrow> current_token_pos P \<le> current_token_pos P1 \<Longrightarrow>
     progresses P res"
  by (fastforce simp: progresses_def)

lemma progresses_SomeD:
  "progresses P (Some (r, P')) \<Longrightarrow> tokens P' = tokens P \<and> current_token_pos P \<le> current_token_pos P'"
  "progresses P (Some (Returns (Some v), P')) \<Longrightarrow> current_token_pos P < current_token_pos P'"
  by (simp_all add: progresses_def)

lemma progresses_throw:
  "progresses P (Some (r, P')) \<Longrightarrow> progresses P (Some (Throws, P'))"
  "progresses P (Some (r, P')) \<Longrightarrow> progresses P (Some (Returns None, P'))"
  by (simp_all add: progresses_def)


lemma object_loop_Suc_progress:
  assumes IHv: "\<And>Q. progresses Q (parse_value n stod Q)"
    and IHl: "\<And>Q m'. progresses Q (object_loop n stod Q m')"
  shows "progresses P (object_loop (Suc n) stod P m)"
proof (cases "parse_value n stod (advance (advance P))")
  case None
  then show ?thesis by (simp add: Let_def)
next
  case (Some res)
  obtain r P2 where res: "res = (r, P2)" by (cases res)
  from IHv [of "advance (advance P)"] Some res
  have P2: "progresses (advance (advance P)) (Some (r, P2))"
    by simp
  then have same: "tokens P2 = tokens P" and le: "current_token_pos P \<le> current_token_pos P2"
    by (auto dest!: progresses_SomeD(1) simp: advance_def)
  have l1: "progresses P (object_loop n stod (advance P2) m')" for m'
    by (rule progresses_weaken [OF IHl]) (use same le in \<open>simp_all add: advance_def\<close>)
  have l2: "progresses P (object_loop n stod P2 m')" for m'
    by (rule progresses_weaken [OF IHl]) (use same le in \<open>simp_all add: advance_def\<close>)
  have t: "progresses P (Some (Throws, P2))" "progresses P (Some (Returns None, P2))"
    using same le by (simp_all add: progresses_def)
  show ?thesis
  proof (cases r)
    case Throws
    with Some res t show ?thesis by (simp add: Let_def)
  next
    case (Returns ov)
    show ?thesis
    proof (cases ov)
      case None
      with Returns Some res t show ?thesis by (simp add: Let_def)
    next
      case (Some v)
      with Returns \<open>parse_value n stod (advance (advance P)) = Some res\<close> res l1 l2
      show ?thesis by (simp add: Let_def)
    qed
  qed
qed


lemma array_loop_Suc_progress:
  assumes IHv: "\<And>Q. progresses Q (parse_value n stod Q)"
    and IHl: "\<And>Q vec'. progresses Q (array_loop n stod Q vec')"
  shows "progresses P (array_loop (Suc n) stod P vec)"
proof (cases "parse_value n stod P")
  case None
  then show ?thesis by simp
next
  case (Some res)
  obtain r P2 where res: "res = (r, P2)" by (cases res)
  from IHv [of P] Some res have P2: "progresses P (Some (r, P2))"
    by simp
  then have same: "tokens P2 = tokens P" and le: "current_token_pos P \<le> current_token_pos P2"
    by (auto dest!: progresses_SomeD(1))
  have l1: "progresses P (array_loop n stod (advance P2) vec')" for vec'
    by (rule progresses_weaken [OF IHl]) (use same le in \<open>simp_all add: advance_def\<close>)
  have l2: "progresses P (array_loop n stod P2 vec')" for vec'
    by (rule progresses_weaken [OF IHl]) (use same le in \<open>simp_all add: advance_def\<close>)
  have t: "progresses P (Some (Throws, P2))" "progresses P (Some (Returns None, P2))"
    using same le by (simp_all add: progresses_def)
  show ?thesis
  proof (cases r)
    case Throws
    with Some res t show ?thesis by simp
  next
    case (Returns ov)
    show ?thesis
    proof (cases ov)
      case None
      with Returns Some res t show ?thesis by simp
    next
      case (Some v)
      with Returns \<open>parse_value n stod P = Some res\<close> res l1 l2
      show ?thesis by simp
    qed
  qed
qed

lemma parse_object_Suc_progress:
  assumes IHl: "\<And>Q m'. progresses Q (object_loop n stod Q m')"
  shows "progresses P (parse_object (Suc n) stod P)"
proof -
  have "progresses P (object_loop n stod (advance (advance P)) [])"
    and "progresses P (object_loop n stod (advance P) [])"
    by (rule progresses_weaken [OF IHl]; simp add: advance_def)+
  then show ?thesis
    by (simp add: Let_def)
qed

lemma parse_array_Suc_progress:
  assumes IHl: "\<And>Q vec'. progresses Q (array_loop n stod Q vec')"
  shows "progresses P (parse_array (Suc n) stod P)"
proof -
  have "progresses P (array_loop n stod (advance P) [])"
    by (rule progresses_weaken [OF IHl]; simp add: advance_def)
  then show ?thesis
    by simp
qed

lemma parse_value_Suc_progress:
  assumes "\<And>Q. progresses Q (parse_object n stod Q)"
    and "\<And>Q. progresses Q (parse_array n stod Q)"
  shows "progresses P (parse_value (Suc n) stod P)"
  using assms by (simp add: Let_def split: option.splits)

lemma parse_progress:
  "(\<forall>P. progresses P (parse_value n stod P)) \<and> (\<forall>P. progresses P (parse_object n stod P))
      \<and> (\<forall>P m. progresses P (object_loop n stod P m)) \<and> (\<forall>P. progresses P (parse_array n stod P))
      \<and> (\<forall>P vec. progresses P (array_loop n stod P vec))"
proof (induction n)
  case 0
  show ?case by simp
next
  case (Suc n)
  then show ?case
    by (intro conjI allI parse_value_Suc_progress parse_object_Suc_progress
          object_loop_Suc_progress parse_array_Suc_progress array_loop_Suc_progress) simp_all
qed


lemma parse_value_progress:
  "parse_value n stod P = Some (Returns (Some v), P') \<Longrightarrow>
     tokens P' = tokens P \<and> current_token_pos P < current_token_pos P'"
  using parse_progress [of n stod] by (simp add: progresses_def)

lemma object_loop_Suc_returns:
  assumes IHv: "\<And>Q. 3 * remaining Q + 1 \<le> n \<Longrightarrow> parse_value n stod Q \<noteq> None"
    and IHl: "\<And>Q m'. 3 * remaining Q + 2 \<le> n \<Longrightarrow> object_loop n stod Q m' \<noteq> None"
    and fuel: "3 * remaining P + 2 \<le> Suc n"
  shows "object_loop (Suc n) stod P m \<noteq> None"
proof (cases "at_value (advance P) ''=''")
  case False
  then show ?thesis by (simp add: Let_def)
next
  case True
  then have k: "2 \<le> remaining P"
    by (auto simp: at_value_def advance_def remaining_def)
  with fuel have "3 * remaining (advance (advance P)) + 1 \<le> n"
    by (simp add: remaining_def advance_def)
  from IHv [OF this] obtain r P2 where res: "parse_value n stod (advance (advance P)) = Some (r, P2)"
    by (cases "parse_value n stod (advance (advance P))") auto
  show ?thesis
  proof (cases r)
    case Throws
    with res show ?thesis by (simp add: Let_def)
  next
    case (Returns ov)
    show ?thesis
    proof (cases ov)
      case None
      with Returns res show ?thesis by (simp add: Let_def)
    next
      case (Some v)
      with Returns res parse_value_progress [of n stod "advance (advance P)" v P2]
      have "tokens P2 = tokens P" and "current_token_pos P + 2 < current_token_pos P2"
        by (simp_all add: advance_def)
      with fuel k have "3 * remaining P2 + 2 \<le> n" and "3 * remaining (advance P2) + 2 \<le> n"
        by (simp_all add: remaining_def advance_def)
      then have "object_loop n stod P2 m' \<noteq> None" and "object_loop n stod (advance P2) m' \<noteq> None"
        for m'
        using IHl by blast+
      with Some Returns res show ?thesis
        by (simp add: Let_def)
    qed
  qed
qed

lemma array_loop_Suc_returns:
  assumes IHv: "\<And>Q. 3 * remaining Q + 1 \<le> n \<Longrightarrow> parse_value n stod Q \<noteq> None"
    and IHl: "\<And>Q vec'. 3 * remaining Q + 2 \<le> n \<Longrightarrow> array_loop n stod Q vec' \<noteq> None"
    and fuel: "3 * remaining P + 2 \<le> Suc n"
  shows "array_loop (Suc n) stod P vec \<noteq> None"
proof (cases "current_token_pos P < length (tokens P)")
  case False
  then show ?thesis by simp
next
  case True
  then have k: "1 \<le> remaining P"
    by (simp add: remaining_def)
  from fuel have "3 * remaining P + 1 \<le> n"
    by simp
  from IHv [OF this] obtain r P2 where res: "parse_value n stod P = Some (r, P2)"
    by (cases "parse_value n stod P") auto
  show ?thesis
  proof (cases r)
    case Throws
    with res show ?thesis by simp
  next
    case (Returns ov)
    show ?thesis
    proof (cases ov)
      case None
      with Returns res show ?thesis by simp
    next
      case (Some v)
      with Returns res parse_value_progress [of n stod P v P2]
      have "tokens P2 = tokens P" and "current_token_pos P < current_token_pos P2"
        by simp_all
      with fuel k have "3 * remaining P2 + 2 \<le> n" and "3 * remaining (advance P2) + 2 \<le> n"
        by (simp_all add: remaining_def advance_def)
      then have "array_loop n stod P2 vec' \<noteq> None" and "array_loop n stod (advance P2) vec' \<noteq> None"
        for vec'
        using IHl by blast+
      with Some Returns res show ?thesis
        by simp
    qed
  qed
qed

lemma parse_object_Suc_returns:
  assumes IHl: "\<And>Q m'. 3 * remaining Q + 2 \<le> n \<Longrightarrow> object_loop n stod Q m' \<noteq> None"
    and fuel: "3 * remaining P \<le> Suc n"
  shows "parse_object (Suc n) stod P \<noteq> None"
proof -
  have "object_loop n stod (advance Q) [] \<noteq> None"
    if "at_value Q ''{''" and "Q = advance P \<or> Q = P" for Q
  proof (rule IHl)
    from that fuel show "3 * remaining (advance Q) + 2 \<le> n"
      by (auto simp: at_value_def remaining_def advance_def)
  qed
  then show ?thesis
    by (simp add: Let_def)
qed

lemma parse_array_Suc_returns:
  assumes IHl: "\<And>Q vec'. 3 * remaining Q + 2 \<le> n \<Longrightarrow> array_loop n stod Q vec' \<noteq> None"
    and fuel: "3 * remaining P \<le> Suc n"
  shows "parse_array (Suc n) stod P \<noteq> None"
proof -
  have "array_loop n stod (advance P) [] \<noteq> None" if "at_value P ''[''"
  proof (rule IHl)
    from that fuel show "3 * remaining (advance P) + 2 \<le> n"
      by (auto simp: at_value_def remaining_def advance_def)
  qed
  then show ?thesis
    by simp
qed

lemma parse_value_Suc_returns:
  assumes IHo: "\<And>Q. 3 * remaining Q \<le> n \<Longrightarrow> 0 < n \<Longrightarrow> parse_object n stod Q \<noteq> None"
    and IHa: "\<And>Q. 3 * remaining Q \<le> n \<Longrightarrow> 0 < n \<Longrightarrow> parse_array n stod Q \<noteq> None"
    and fuel: "3 * remaining P + 1 \<le> Suc n"
  shows "parse_value (Suc n) stod P \<noteq> None"
proof (cases "current_token_pos P < length (tokens P)")
  case False
  then show ?thesis by simp
next
  case True
  with fuel have "3 * remaining P \<le> n" and "0 < n"
    by (simp_all add: remaining_def)
  then have "parse_object n stod P \<noteq> None" and "parse_array n stod P \<noteq> None"
    using IHo IHa by blast+
  then show ?thesis
    by (simp add: Let_def split: option.splits)
qed

lemma parse_returns:
  "(\<forall>P. 3 * remaining P + 1 \<le> n \<longrightarrow> parse_value n stod P \<noteq> None)
   \<and> (\<forall>P. 3 * remaining P \<le> n \<and> 0 < n \<longrightarrow> parse_object n stod P \<noteq> None)
   \<and> (\<forall>P m. 3 * remaining P + 2 \<le> n \<longrightarrow> object_loop n stod P m \<noteq> None)
   \<and> (\<forall>P. 3 * remaining P \<le> n \<and> 0 < n \<longrightarrow> parse_array n stod P \<noteq> None)
   \<and> (\<forall>P vec. 3 * remaining P + 2 \<le> n \<longrightarrow> array_loop n stod P vec \<noteq> None)"
proof (induction n)
  case 0
  show ?case by simp
next
  case (Suc n)
  then show ?case
    by (intro conjI allI impI parse_value_Suc_returns parse_object_Suc_returns
          object_loop_Suc_returns parse_array_Suc_returns array_loop_Suc_returns) simp_all
qed

lemma parse_value_returns:
  "parse_value (parse_fuel (tokens P)) stod P \<noteq> None"
proof -
  have "3 * remaining P + 1 \<le> parse_fuel (tokens P)"
    by (simp add: parse_fuel_def remaining_def)
  with parse_returns [of "parse_fuel (tokens P)" stod] show ?thesis
    by blast
qed

lemma cfgpp_parse_string_returns:
  "cfgpp_parse_string ml stod parser config_text \<noteq> None"
proof -
  obtain ts P0 where tok: "tokenize ml parser config_text = Some (ts, P0)"
    using tokenize_returns [of ml parser config_text] by auto
  have "parse_value (parse_fuel ts) stod (P0\<lparr>tokens := ts, current_token_pos := 0\<rparr>) \<noteq> None"
    using parse_value_returns [of "P0\<lparr>tokens := ts, current_token_pos := 0\<rparr>" stod] by simp
  with tok show ?thesis
    by (auto simp: cfgpp_parse_string_def Let_def split: option.splits cxx.splits)
qed


subsection \<open>Identifiers\<close>

lemma parse_object_skips_name:
  assumes "current_token_pos P < length (tokens P)"
    and "tok_type (tokens P ! current_token_pos P) = IDENTIFIER"
    and "at_value (advance P) ''{''"
    and "tok_type (tokens P ! Suc (current_token_pos P)) = PUNCTUATION"
  shows "parse_object n stod P = parse_object n stod (advance P)"
proof (cases n)
  case 0
  then show ?thesis by simp
next
  case (Suc k)
  with assms show ?thesis
    by (simp add: Let_def advance_def at_value_def)
qed

text \<open>
  C7: in \<^verbatim>\<open>parse_value\<close> on the tokens of a text, with an identifier as the current token.
  If the next token is the punctuation \<^verbatim>\<open>{\<close>, the call is the call of \<^verbatim>\<open>parse_value\<close> behind
  the identifier, which is the parse of the object that starts at the brace: the name is
  consumed and leaves no trace in the result. Otherwise the identifier alone is consumed
  and the result is the Enum value of its text.
\<close>

theorem parse_value_identifier:
  assumes "tokenize ml parser config_text = Some (tokens P, P0)"
    and "current_token_pos P < length (tokens P)"
    and "tok_type (tokens P ! current_token_pos P) = IDENTIFIER"
  shows "(Suc (current_token_pos P) < length (tokens P)
          \<and> tok_type (tokens P ! Suc (current_token_pos P)) = PUNCTUATION
          \<and> tok_value (tokens P ! Suc (current_token_pos P)) = ''{''
          \<longrightarrow> parse_value n stod P = parse_value n stod (advance P)
              \<and> parse_value (Suc (Suc n)) stod P = object_loop n stod (advance (advance P)) [])
       \<and> (\<not> (Suc (current_token_pos P) < length (tokens P)
              \<and> tok_type (tokens P ! Suc (current_token_pos P)) = PUNCTUATION
              \<and> tok_value (tokens P ! Suc (current_token_pos P)) = ''{'')
          \<longrightarrow> parse_value (Suc n) stod P
              = Some (Returns (Some (VEnum (tok_value (tokens P ! current_token_pos P)))),
                      advance P))"
proof (intro conjI impI)
  assume next_tok: "Suc (current_token_pos P) < length (tokens P)
          \<and> tok_type (tokens P ! Suc (current_token_pos P)) = PUNCTUATION
          \<and> tok_value (tokens P ! Suc (current_token_pos P)) = ''{''"
  then have brace: "at_value (advance P) ''{''"
    by (simp add: at_value_def advance_def)
  from next_tok have type: "tok_type (tokens P ! Suc (current_token_pos P)) = PUNCTUATION"
    by simp
  have obj: "parse_object k stod P = parse_object k stod (advance P)" for k
    using assms(2,3) brace type by (rule parse_object_skips_name)
  show "parse_value n stod P = parse_value n stod (advance P)"
  proof (cases n)
    case 0
    then show ?thesis by simp
  next
    case (Suc k)
    with assms(2,3) next_tok obj [of k] show ?thesis
      by (simp add: Let_def advance_def)
  qed
  from assms(2,3) next_tok
  show "parse_value (Suc (Suc n)) stod P = object_loop n stod (advance (advance P)) []"
    by (simp add: Let_def advance_def at_value_def)
next
  assume other: "\<not> (Suc (current_token_pos P) < length (tokens P)
              \<and> tok_type (tokens P ! Suc (current_token_pos P)) = PUNCTUATION
              \<and> tok_value (tokens P ! Suc (current_token_pos P)) = ''{'')"
  have "tok_type (tokens P ! Suc (current_token_pos P)) = PUNCTUATION"
    if "Suc (current_token_pos P) < length (tokens P)"
      and "tok_value (tokens P ! Suc (current_token_pos P)) = ''{''"
    using tokenize_brace_tokens [OF assms(1) _ that(2)] that(1) by simp
  with other
  have "\<not> (Suc (current_token_pos P) < length (tokens P)
           \<and> tok_value (tokens P ! Suc (current_token_pos P)) = ''{'')"
    by blast
  with assms(2,3)
  show "parse_value (Suc n) stod P
          = Some (Returns (Some (VEnum (tok_value (tokens P ! current_token_pos P)))), advance P)"
    by (auto simp: Let_def)
qed

theorem parse_value_identifier_witness:
  "tokenize False cfgpp_parser_create ''MULTIMETER''
     = Some ([Token IDENTIFIER ''MULTIMETER'' 1 1, Token END_OF_FILE [] 1 11], cfgpp_parser_create)
   \<and> parse_value (Suc 0) (\<lambda>s. None)
       (cfgpp_parser_create
          \<lparr>tokens := [Token IDENTIFIER ''MULTIMETER'' 1 1, Token END_OF_FILE [] 1 11]\<rparr>)
     = Some (Returns (Some (VEnum ''MULTIMETER'')),
             cfgpp_parser_create
               \<lparr>tokens := [Token IDENTIFIER ''MULTIMETER'' 1 1, Token END_OF_FILE [] 1 11],
                current_token_pos := 1\<rparr>)
   \<and> tokenize False cfgpp_parser_create ''cfg { a = 1 }''
     = Some ([Token IDENTIFIER ''cfg'' 1 1, Token PUNCTUATION ''{'' 1 5, Token IDENTIFIER ''a'' 1 7,
              Token PUNCTUATION ''='' 1 9, Token NUMBER ''1'' 1 11, Token PUNCTUATION ''}'' 1 13,
              Token END_OF_FILE [] 1 14], cfgpp_parser_create)
   \<and> parse_value 9 (\<lambda>s. None)
       (cfgpp_parser_create
          \<lparr>tokens := [Token IDENTIFIER ''cfg'' 1 1, Token PUNCTUATION ''{'' 1 5,
                      Token IDENTIFIER ''a'' 1 7, Token PUNCTUATION ''='' 1 9,
                      Token NUMBER ''1'' 1 11, Token PUNCTUATION ''}'' 1 13,
                      Token END_OF_FILE [] 1 14]\<rparr>)
     = Some (Returns (Some (VObject [(''a'', VInteger 1)])),
             cfgpp_parser_create
               \<lparr>tokens := [Token IDENTIFIER ''cfg'' 1 1, Token PUNCTUATION ''{'' 1 5,
                           Token IDENTIFIER ''a'' 1 7, Token PUNCTUATION ''='' 1 9,
                           Token NUMBER ''1'' 1 11, Token PUNCTUATION ''}'' 1 13,
                           Token END_OF_FILE [] 1 14],
                current_token_pos := 6\<rparr>)"
proof -
  let ?ts1 = "[Token IDENTIFIER ''MULTIMETER'' 1 1, Token END_OF_FILE [] 1 11]"
  let ?P1 = "cfgpp_parser_create\<lparr>tokens := ?ts1\<rparr>"
  let ?ts2 = "[Token IDENTIFIER ''cfg'' 1 1, Token PUNCTUATION ''{'' 1 5, Token IDENTIFIER ''a'' 1 7,
              Token PUNCTUATION ''='' 1 9, Token NUMBER ''1'' 1 11, Token PUNCTUATION ''}'' 1 13,
              Token END_OF_FILE [] 1 14]"
  let ?P2 = "cfgpp_parser_create\<lparr>tokens := ?ts2\<rparr>"
  have tok1: "tokenize False cfgpp_parser_create ''MULTIMETER'' = Some (?ts1, cfgpp_parser_create)"
    by code_simp
  have tok2: "tokenize False cfgpp_parser_create ''cfg { a = 1 }'' = Some (?ts2, cfgpp_parser_create)"
    by code_simp
  have enum: "parse_value (Suc 0) (\<lambda>s. None) ?P1
      = Some (Returns (Some (VEnum ''MULTIMETER'')), ?P1\<lparr>current_token_pos := 1\<rparr>)"
    using parse_value_identifier
            [of False cfgpp_parser_create "''MULTIMETER''" ?P1 cfgpp_parser_create 0 "\<lambda>s. None"]
          tok1
    by (simp add: cfgpp_parser_create_def advance_def)
  have anonymous: "parse_value 9 (\<lambda>s. None) (advance ?P2)
      = Some (Returns (Some (VObject [(''a'', VInteger 1)])), ?P2\<lparr>current_token_pos := 6\<rparr>)"
    by code_simp
  have named: "parse_value 9 (\<lambda>s. None) ?P2
      = Some (Returns (Some (VObject [(''a'', VInteger 1)])), ?P2\<lparr>current_token_pos := 6\<rparr>)"
    using parse_value_identifier
            [of False cfgpp_parser_create "''cfg { a = 1 }''" ?P2 cfgpp_parser_create 9 "\<lambda>s. None"]
          tok2 anonymous
    by (simp add: cfgpp_parser_create_def)
  from tok1 enum tok2 named show ?thesis
    by (simp add: cfgpp_parser_create_def)
qed

subsection \<open>More fuel changes nothing\<close>

lemma parse_value_Suc_mono:
  assumes "\<And>P res. parse_object n stod P = Some res \<Longrightarrow> parse_object m stod P = Some res"
    and "\<And>P res. parse_array n stod P = Some res \<Longrightarrow> parse_array m stod P = Some res"
    and "parse_value (Suc n) stod P = Some res"
  shows "parse_value (Suc m) stod P = Some res"
  using assms by (auto simp: Let_def split: if_splits option.splits)

lemma parse_object_Suc_mono:
  assumes "\<And>P m0 res. object_loop n stod P m0 = Some res \<Longrightarrow> object_loop m stod P m0 = Some res"
    and "parse_object (Suc n) stod P = Some res"
  shows "parse_object (Suc m) stod P = Some res"
  using assms by (auto simp: Let_def split: if_splits)

lemma parse_array_Suc_mono:
  assumes "\<And>P vec res. array_loop n stod P vec = Some res \<Longrightarrow> array_loop m stod P vec = Some res"
    and "parse_array (Suc n) stod P = Some res"
  shows "parse_array (Suc m) stod P = Some res"
  using assms by (auto simp: Let_def split: if_splits)

lemma object_loop_Suc_mono:
  assumes IHv: "\<And>P res. parse_value n stod P = Some res \<Longrightarrow> parse_value m stod P = Some res"
    and IHl: "\<And>P m0 res. object_loop n stod P m0 = Some res \<Longrightarrow> object_loop m stod P m0 = Some res"
    and run: "object_loop (Suc n) stod P m0 = Some res"
  shows "object_loop (Suc m) stod P m0 = Some res"
proof (cases "parse_value n stod (advance (advance P))")
  case None
  with run show ?thesis
    by (auto simp: Let_def split: if_splits)
next
  case (Some res2)
  note sub = IHv [OF Some]
  obtain r2 P2 where res2: "res2 = (r2, P2)" by (cases res2)
  show ?thesis
  proof (cases r2)
    case Throws
    with run Some sub res2 show ?thesis
      by (auto simp: Let_def split: if_splits)
  next
    case (Returns ov)
    show ?thesis
    proof (cases ov)
      case None
      with Returns run Some sub res2 show ?thesis
        by (auto simp: Let_def split: if_splits)
    next
      case (Some v)
      with Returns run \<open>parse_value n stod (advance (advance P)) = Some res2\<close> sub res2 IHl
      show ?thesis
        by (auto simp: Let_def split: if_splits)
    qed
  qed
qed

lemma array_loop_Suc_mono:
  assumes IHv: "\<And>P res. parse_value n stod P = Some res \<Longrightarrow> parse_value m stod P = Some res"
    and IHl: "\<And>P vec res. array_loop n stod P vec = Some res \<Longrightarrow> array_loop m stod P vec = Some res"
    and run: "array_loop (Suc n) stod P vec = Some res"
  shows "array_loop (Suc m) stod P vec = Some res"
proof (cases "parse_value n stod P")
  case None
  with run show ?thesis
    by (auto simp: Let_def split: if_splits)
next
  case (Some res2)
  note sub = IHv [OF Some]
  obtain r2 P2 where res2: "res2 = (r2, P2)" by (cases res2)
  show ?thesis
  proof (cases r2)
    case Throws
    with run Some sub res2 show ?thesis
      by (auto simp: Let_def split: if_splits)
  next
    case (Returns ov)
    show ?thesis
    proof (cases ov)
      case None
      with Returns run Some sub res2 show ?thesis
        by (auto simp: Let_def split: if_splits)
    next
      case (Some v)
      with Returns run \<open>parse_value n stod P = Some res2\<close> sub res2 IHl
      show ?thesis
        by (auto simp: Let_def split: if_splits)
    qed
  qed
qed

lemma parse_fuel_mono:
  "(\<forall>m P res. n \<le> m \<longrightarrow> parse_value n stod P = Some res \<longrightarrow> parse_value m stod P = Some res)
   \<and> (\<forall>m P res. n \<le> m \<longrightarrow> parse_object n stod P = Some res \<longrightarrow> parse_object m stod P = Some res)
   \<and> (\<forall>m P m0 res. n \<le> m \<longrightarrow> object_loop n stod P m0 = Some res
         \<longrightarrow> object_loop m stod P m0 = Some res)
   \<and> (\<forall>m P res. n \<le> m \<longrightarrow> parse_array n stod P = Some res \<longrightarrow> parse_array m stod P = Some res)
   \<and> (\<forall>m P vec res. n \<le> m \<longrightarrow> array_loop n stod P vec = Some res
         \<longrightarrow> array_loop m stod P vec = Some res)"
proof (induction n)
  case 0
  show ?case by simp
next
  case (Suc n)
  have m: "\<exists>m'. m = Suc m' \<and> n \<le> m'" if "Suc n \<le> m" for m
    using that by (cases m) auto
  have IHv: "parse_value n stod P = Some res \<Longrightarrow> parse_value m' stod P = Some res"
    and IHo: "parse_object n stod P = Some res \<Longrightarrow> parse_object m' stod P = Some res"
    and IHol: "object_loop n stod P m0 = Some res \<Longrightarrow> object_loop m' stod P m0 = Some res"
    and IHa: "parse_array n stod P = Some res \<Longrightarrow> parse_array m' stod P = Some res"
    and IHal: "array_loop n stod P vec = Some res \<Longrightarrow> array_loop m' stod P vec = Some res"
    if "n \<le> m'" for m' P res m0 vec
    using Suc that by blast+
  show ?case
  proof (intro conjI allI impI)
    fix m P res
    assume "Suc n \<le> m" and run: "parse_value (Suc n) stod P = Some res"
    with m obtain m' where m': "m = Suc m'" and le: "n \<le> m'" by blast
    show "parse_value m stod P = Some res"
      unfolding m' by (rule parse_value_Suc_mono [OF IHo [OF le] IHa [OF le] run])
  next
    fix m P res
    assume "Suc n \<le> m" and run: "parse_object (Suc n) stod P = Some res"
    with m obtain m' where m': "m = Suc m'" and le: "n \<le> m'" by blast
    show "parse_object m stod P = Some res"
      unfolding m' by (rule parse_object_Suc_mono [OF IHol [OF le] run])
  next
    fix m P m0 res
    assume "Suc n \<le> m" and run: "object_loop (Suc n) stod P m0 = Some res"
    with m obtain m' where m': "m = Suc m'" and le: "n \<le> m'" by blast
    show "object_loop m stod P m0 = Some res"
      unfolding m' by (rule object_loop_Suc_mono [OF IHv [OF le] IHol [OF le] run])
  next
    fix m P res
    assume "Suc n \<le> m" and run: "parse_array (Suc n) stod P = Some res"
    with m obtain m' where m': "m = Suc m'" and le: "n \<le> m'" by blast
    show "parse_array m stod P = Some res"
      unfolding m' by (rule parse_array_Suc_mono [OF IHal [OF le] run])
  next
    fix m P vec res
    assume "Suc n \<le> m" and run: "array_loop (Suc n) stod P vec = Some res"
    with m obtain m' where m': "m = Suc m'" and le: "n \<le> m'" by blast
    show "array_loop m stod P vec = Some res"
      unfolding m' by (rule array_loop_Suc_mono [OF IHv [OF le] IHal [OF le] run])
  qed
qed

lemma parse_value_fuel:
  "parse_value n stod P = Some res \<Longrightarrow> n \<le> m \<Longrightarrow> parse_value m stod P = Some res"
  using parse_fuel_mono [of n stod] by blast

subsection \<open>Tokens behind the cursor are not read\<close>

lemma same_upto_mono:
  assumes "same_upto k ts ts'" and "j \<le> k"
  shows "same_upto j ts ts'"
proof -
  from assms(2) have "take (Suc j) ts' = take (Suc j) (take (Suc k) ts')"
    by (simp add: min_def)
  also from assms(1) have "\<dots> = take (Suc j) (take (Suc k) ts)"
    by (simp only: same_upto_def)
  also from assms(2) have "\<dots> = take (Suc j) ts"
    by (simp add: min_def)
  finally show ?thesis
    by (simp add: same_upto_def)
qed

lemma same_upto_length:
  assumes "same_upto k ts ts'" and "i \<le> k"
  shows "i < length ts' \<longleftrightarrow> i < length ts"
proof -
  from assms(1) have "length (take (Suc k) ts') = length (take (Suc k) ts)"
    by (simp add: same_upto_def)
  with assms(2) show ?thesis
    by (auto simp: min_def split: if_splits)
qed

lemma same_upto_nth:
  assumes "same_upto k ts ts'" and "i \<le> k"
  shows "ts' ! i = ts ! i"
proof -
  from assms(2) have "ts' ! i = take (Suc k) ts' ! i" and "ts ! i = take (Suc k) ts ! i"
    by simp_all
  with assms(1) show ?thesis
    by (simp add: same_upto_def)
qed

lemma at_value_same:
  "same_upto k (tokens P) ts' \<Longrightarrow> current_token_pos P \<le> k \<Longrightarrow>
     at_value (P\<lparr>tokens := ts'\<rparr>) s = at_value P s"
  by (simp add: at_value_def same_upto_length same_upto_nth)

lemma at_value_advance_same:
  "same_upto k (tokens P) ts' \<Longrightarrow> Suc (current_token_pos P) \<le> k \<Longrightarrow>
     at_value (advance (P\<lparr>tokens := ts'\<rparr>)) s = at_value (advance P) s"
  using same_upto_length [of k "tokens P" ts' "Suc (current_token_pos P)"]
    same_upto_nth [of k "tokens P" ts' "Suc (current_token_pos P)"]
  by (simp add: at_value_def advance_def)

lemma advance_tokens [simp]:
  "advance (P\<lparr>tokens := ts'\<rparr>) = (advance P)\<lparr>tokens := ts'\<rparr>"
  by (simp add: advance_def)

lemma progressesD:
  assumes "progresses P res" and "res = Some (r, P')"
  shows "tokens P' = tokens P" and "current_token_pos P \<le> current_token_pos P'"
  using assms by (simp_all add: progresses_def)

lemmas parse_value_progresses = parse_progress [THEN conjunct1, rule_format]
lemmas parse_object_progresses = parse_progress [THEN conjunct2, THEN conjunct1, rule_format]
lemmas object_loop_progresses =
  parse_progress [THEN conjunct2, THEN conjunct2, THEN conjunct1, rule_format]
lemmas parse_array_progresses =
  parse_progress [THEN conjunct2, THEN conjunct2, THEN conjunct2, THEN conjunct1, rule_format]
lemmas array_loop_progresses =
  parse_progress [THEN conjunct2, THEN conjunct2, THEN conjunct2, THEN conjunct2, rule_format]

lemma array_loop_Suc_local:
  assumes IHv: "\<And>P r P'. parse_value n stod P = Some (r, P') \<Longrightarrow>
                  same_upto (current_token_pos P') (tokens P) ts' \<Longrightarrow>
                  parse_value n stod (P\<lparr>tokens := ts'\<rparr>) = Some (r, P'\<lparr>tokens := ts'\<rparr>)"
    and IHl: "\<And>P vec r P'. array_loop n stod P vec = Some (r, P') \<Longrightarrow>
                  same_upto (current_token_pos P') (tokens P) ts' \<Longrightarrow>
                  array_loop n stod (P\<lparr>tokens := ts'\<rparr>) vec = Some (r, P'\<lparr>tokens := ts'\<rparr>)"
    and run: "array_loop (Suc n) stod P vec = Some (r, P')"
    and same: "same_upto (current_token_pos P') (tokens P) ts'"
  shows "array_loop (Suc n) stod (P\<lparr>tokens := ts'\<rparr>) vec = Some (r, P'\<lparr>tokens := ts'\<rparr>)"
proof -
  note le = progressesD(2) [OF array_loop_progresses run]
  from same le have len: "current_token_pos P < length ts' \<longleftrightarrow> current_token_pos P < length (tokens P)"
    and nth: "ts' ! current_token_pos P = tokens P ! current_token_pos P"
    by (simp_all add: same_upto_length same_upto_nth)
  note here = at_value_same [OF same le]
  show ?thesis
  proof (cases "current_token_pos P < length (tokens P)
         \<and> tok_value (tokens P ! current_token_pos P) \<noteq> '']''")
    case False
    with run len nth here show ?thesis
      by (cases "at_value P '']''") (auto simp: at_value_def)
  next
    case True
    with run obtain r2 P2 where sub: "parse_value n stod P = Some (r2, P2)"
      by (cases "parse_value n stod P") auto
    note p2 = progressesD [OF parse_value_progresses sub]
    show ?thesis
    proof (cases "\<exists>v. r2 = Returns (Some v)")
      case False
      with run True sub have res: "r = r2" "P' = P2"
        by (auto split: cxx.splits option.splits)
      with IHv [OF sub] same p2 have "parse_value n stod (P\<lparr>tokens := ts'\<rparr>) = Some (r2, P2\<lparr>tokens := ts'\<rparr>)"
        by simp
      with False True len nth res show ?thesis
        by (auto split: cxx.splits option.splits)
    next
      case True2: True
      then obtain v where r2: "r2 = Returns (Some v)" by blast
      let ?P3 = "if at_value P2 '','' then advance P2 else P2"
      from run True sub r2 have loop: "array_loop n stod ?P3 (vec @ [v]) = Some (r, P')"
        by simp
      have le3: "current_token_pos ?P3 \<le> current_token_pos P'" and tok3: "tokens ?P3 = tokens P"
        using progressesD(2) [OF array_loop_progresses loop] p2 by (simp_all add: advance_def)
      then have le2: "current_token_pos P2 \<le> current_token_pos P'"
        by (simp add: advance_def split: if_splits)
      from same p2 le2 have same2: "same_upto (current_token_pos P2) (tokens P) ts'"
        and same2': "same_upto (current_token_pos P') (tokens P2) ts'"
        by (auto intro: same_upto_mono)
      from IHv [OF sub same2]
      have sub': "parse_value n stod (P\<lparr>tokens := ts'\<rparr>) = Some (r2, P2\<lparr>tokens := ts'\<rparr>)" .
      have comma: "at_value (P2\<lparr>tokens := ts'\<rparr>) '','' = at_value P2 '',''"
        using same2' le2 by (rule at_value_same)
      from same tok3 have "same_upto (current_token_pos P') (tokens ?P3) ts'"
        by simp
      from IHl [OF loop this]
      have "array_loop n stod (?P3\<lparr>tokens := ts'\<rparr>) (vec @ [v]) = Some (r, P'\<lparr>tokens := ts'\<rparr>)" .
      with True len nth sub' r2 comma show ?thesis
        by (auto split: if_splits)
    qed
  qed
qed


lemma object_loop_Suc_local:
  assumes IHv: "\<And>P r P'. parse_value n stod P = Some (r, P') \<Longrightarrow>
                  same_upto (current_token_pos P') (tokens P) ts' \<Longrightarrow>
                  parse_value n stod (P\<lparr>tokens := ts'\<rparr>) = Some (r, P'\<lparr>tokens := ts'\<rparr>)"
    and IHl: "\<And>P m r P'. object_loop n stod P m = Some (r, P') \<Longrightarrow>
                  same_upto (current_token_pos P') (tokens P) ts' \<Longrightarrow>
                  object_loop n stod (P\<lparr>tokens := ts'\<rparr>) m = Some (r, P'\<lparr>tokens := ts'\<rparr>)"
    and run: "object_loop (Suc n) stod P m = Some (r, P')"
    and same: "same_upto (current_token_pos P') (tokens P) ts'"
  shows "object_loop (Suc n) stod (P\<lparr>tokens := ts'\<rparr>) m = Some (r, P'\<lparr>tokens := ts'\<rparr>)"
proof -
  note le = progressesD(2) [OF object_loop_progresses run]
  from same le have len: "current_token_pos P < length ts' \<longleftrightarrow> current_token_pos P < length (tokens P)"
    and nth: "ts' ! current_token_pos P = tokens P ! current_token_pos P"
    by (simp_all add: same_upto_length same_upto_nth)
  note here = at_value_same [OF same le]
  show ?thesis
  proof (cases "current_token_pos P < length (tokens P)
         \<and> tok_value (tokens P ! current_token_pos P) \<noteq> ''}''")
    case False
    with run len nth here show ?thesis
      by (cases "at_value P ''}''") (auto simp: at_value_def)
  next
    case in_loop: True
    show ?thesis
    proof (cases "tok_type (tokens P ! current_token_pos P) = IDENTIFIER")
      case False
      with run in_loop len nth show ?thesis
        by auto
    next
      case key: True
      show ?thesis
      proof (cases "at_value (advance P) ''=''")
        case False
        with run in_loop key have "P' = (advance P)
            \<lparr>last_error := ''Expected '' @ [CHR 0x27] @ ''='' @ [CHR 0x27] @ '' after object key''\<rparr>"
          by (auto simp: Let_def)
        then have "Suc (current_token_pos P) \<le> current_token_pos P'"
          by (simp add: advance_def)
        note at_value_advance_same [OF same this, of "''=''"]
        with run in_loop key False len nth show ?thesis
          by (auto simp: Let_def)
      next
        case eq: True
        with run in_loop key obtain r2 P2
          where sub: "parse_value n stod (advance (advance P)) = Some (r2, P2)"
          by (cases "parse_value n stod (advance (advance P))") (auto simp: Let_def)
        note p2 = progressesD [OF parse_value_progresses sub]
        from p2 have tok2: "tokens P2 = tokens P"
          and pos2: "Suc (Suc (current_token_pos P)) \<le> current_token_pos P2"
          by (simp_all add: advance_def)
        have le2: "current_token_pos P2 \<le> current_token_pos P'"
        proof (cases "\<exists>v. r2 = Returns (Some v)")
          case False
          with run in_loop key eq sub have "P' = P2"
            by (auto simp: Let_def split: cxx.splits option.splits)
          then show ?thesis by simp
        next
          case True
          then obtain v where "r2 = Returns (Some v)" by blast
          with run in_loop key eq sub
          have "object_loop n stod (if at_value P2 '';'' then advance P2 else P2)
                  (map_set (tok_value (tokens P ! current_token_pos P)) v m) = Some (r, P')"
            by (simp add: Let_def)
          from progressesD(2) [OF object_loop_progresses this] show ?thesis
            by (simp add: advance_def split: if_splits)
        qed
        with pos2 have "Suc (current_token_pos P) \<le> current_token_pos P'"
          by simp
        note eq' = at_value_advance_same [OF same this, of "''=''"]
        from same le2 have "same_upto (current_token_pos P2) (tokens (advance (advance P))) ts'"
          by (auto intro: same_upto_mono simp: advance_def)
        from IHv [OF sub this]
        have sub': "parse_value n stod ((advance (advance P))\<lparr>tokens := ts'\<rparr>)
            = Some (r2, P2\<lparr>tokens := ts'\<rparr>)" .
        show ?thesis
        proof (cases "\<exists>v. r2 = Returns (Some v)")
          case False
          with run in_loop key eq sub have "r = r2" "P' = P2"
            by (auto simp: Let_def split: cxx.splits option.splits)
          with False in_loop key eq eq' len nth sub' show ?thesis
            by (auto simp: Let_def split: cxx.splits option.splits)
        next
          case True
          then obtain v where r2: "r2 = Returns (Some v)" by blast
          let ?P3 = "if at_value P2 '';'' then advance P2 else P2"
          let ?m = "map_set (tok_value (tokens P ! current_token_pos P)) v m"
          from run in_loop key eq sub r2 have loop: "object_loop n stod ?P3 ?m = Some (r, P')"
            by (simp add: Let_def)
          from same tok2 have same2: "same_upto (current_token_pos P') (tokens P2) ts'"
            by simp
          have semi: "at_value (P2\<lparr>tokens := ts'\<rparr>) '';'' = at_value P2 '';''"
            using same2 le2 by (rule at_value_same)
          from same tok2 have "same_upto (current_token_pos P') (tokens ?P3) ts'"
            by (simp add: advance_def)
          from IHl [OF loop this]
          have "object_loop n stod (?P3\<lparr>tokens := ts'\<rparr>) ?m = Some (r, P'\<lparr>tokens := ts'\<rparr>)" .
          with in_loop key eq eq' len nth sub' r2 semi show ?thesis
            by (auto simp: Let_def split: if_splits)
        qed
      qed
    qed
  qed
qed

lemma parse_array_Suc_local:
  assumes IHl: "\<And>P vec r P'. array_loop n stod P vec = Some (r, P') \<Longrightarrow>
                  same_upto (current_token_pos P') (tokens P) ts' \<Longrightarrow>
                  array_loop n stod (P\<lparr>tokens := ts'\<rparr>) vec = Some (r, P'\<lparr>tokens := ts'\<rparr>)"
    and run: "parse_array (Suc n) stod P = Some (r, P')"
    and same: "same_upto (current_token_pos P') (tokens P) ts'"
  shows "parse_array (Suc n) stod (P\<lparr>tokens := ts'\<rparr>) = Some (r, P'\<lparr>tokens := ts'\<rparr>)"
proof -
  note le = progressesD(2) [OF parse_array_progresses run]
  note here = at_value_same [OF same le]
  show ?thesis
  proof (cases "at_value P ''[''")
    case False
    with run here show ?thesis by auto
  next
    case True
    with run have loop: "array_loop n stod (advance P) [] = Some (r, P')"
      by simp
    from same have "same_upto (current_token_pos P') (tokens (advance P)) ts'"
      by (simp add: advance_def)
    from IHl [OF loop this] True here show ?thesis
      by simp
  qed
qed


lemma parse_object_Suc_local:
  assumes IHl: "\<And>P m r P'. object_loop n stod P m = Some (r, P') \<Longrightarrow>
                  same_upto (current_token_pos P') (tokens P) ts' \<Longrightarrow>
                  object_loop n stod (P\<lparr>tokens := ts'\<rparr>) m = Some (r, P'\<lparr>tokens := ts'\<rparr>)"
    and run: "parse_object (Suc n) stod P = Some (r, P')"
    and same: "same_upto (current_token_pos P') (tokens P) ts'"
  shows "parse_object (Suc n) stod (P\<lparr>tokens := ts'\<rparr>) = Some (r, P'\<lparr>tokens := ts'\<rparr>)"
proof -
  note le = progressesD(2) [OF parse_object_progresses run]
  from same le have len: "current_token_pos P < length ts' \<longleftrightarrow> current_token_pos P < length (tokens P)"
    and nth: "ts' ! current_token_pos P = tokens P ! current_token_pos P"
    by (simp_all add: same_upto_length same_upto_nth)
  let ?P1 = "if current_token_pos P < length (tokens P)
                 \<and> tok_type (tokens P ! current_token_pos P) = IDENTIFIER
             then advance P else P"
  have tok1: "tokens ?P1 = tokens P"
    by (simp add: advance_def)
  from run have run1: "(if \<not> at_value ?P1 ''{''
       then Some (Returns None, ?P1\<lparr>last_error := ''Expected '' @ [CHR 0x27] @ ''{'' @ [CHR 0x27]\<rparr>)
       else object_loop n stod (advance ?P1) []) = Some (r, P')"
    by (simp add: Let_def)
  have le1: "current_token_pos ?P1 \<le> current_token_pos P'"
  proof (cases "at_value ?P1 ''{''")
    case False
    with run1 have "P' = ?P1\<lparr>last_error := ''Expected '' @ [CHR 0x27] @ ''{'' @ [CHR 0x27]\<rparr>"
      by simp
    then show ?thesis by simp
  next
    case True
    with run1 have "object_loop n stod (advance ?P1) [] = Some (r, P')"
      by simp
    from progressesD(2) [OF object_loop_progresses this] show ?thesis
      by (simp add: advance_def split: if_splits)
  qed
  from same tok1 have same1: "same_upto (current_token_pos P') (tokens ?P1) ts'"
    by simp
  note brace = at_value_same [OF same1 le1, of "''{''"]
  have q1: "(if current_token_pos (P\<lparr>tokens := ts'\<rparr>) < length (tokens (P\<lparr>tokens := ts'\<rparr>))
                 \<and> tok_type (tokens (P\<lparr>tokens := ts'\<rparr>) ! current_token_pos (P\<lparr>tokens := ts'\<rparr>))
                     = IDENTIFIER
             then advance (P\<lparr>tokens := ts'\<rparr>) else P\<lparr>tokens := ts'\<rparr>) = ?P1\<lparr>tokens := ts'\<rparr>"
    using len nth by simp
  show ?thesis
  proof (cases "at_value ?P1 ''{''")
    case False
    with run1 have "r = Returns None"
      and "P' = ?P1\<lparr>last_error := ''Expected '' @ [CHR 0x27] @ ''{'' @ [CHR 0x27]\<rparr>"
      by simp_all
    with False brace show ?thesis
      unfolding parse_object.simps Let_def q1 by simp
  next
    case True
    with run1 have loop: "object_loop n stod (advance ?P1) [] = Some (r, P')"
      by simp
    from same have "same_upto (current_token_pos P') (tokens (advance ?P1)) ts'"
      by (simp add: advance_def)
    from IHl [OF loop this] True brace show ?thesis
      unfolding parse_object.simps Let_def q1 by simp
  qed
qed

lemma parse_object_after_name:
  assumes "parse_object n stod P = Some (r, P')"
    and "current_token_pos P < length (tokens P)"
    and "tok_type (tokens P ! current_token_pos P) = IDENTIFIER"
  shows "Suc (current_token_pos P) \<le> current_token_pos P'"
proof (cases n)
  case 0
  with assms show ?thesis by simp
next
  case (Suc k)
  show ?thesis
  proof (cases "at_value (advance P) ''{''")
    case False
    with assms Suc show ?thesis
      by (auto simp: Let_def advance_def)
  next
    case True
    with assms Suc have "object_loop k stod (advance (advance P)) [] = Some (r, P')"
      by (simp add: Let_def)
    from progressesD(2) [OF object_loop_progresses this] show ?thesis
      by (simp add: advance_def)
  qed
qed

lemma parse_value_Suc_local:
  assumes IHo: "\<And>P r P'. parse_object n stod P = Some (r, P') \<Longrightarrow>
                  same_upto (current_token_pos P') (tokens P) ts' \<Longrightarrow>
                  parse_object n stod (P\<lparr>tokens := ts'\<rparr>) = Some (r, P'\<lparr>tokens := ts'\<rparr>)"
    and IHa: "\<And>P r P'. parse_array n stod P = Some (r, P') \<Longrightarrow>
                  same_upto (current_token_pos P') (tokens P) ts' \<Longrightarrow>
                  parse_array n stod (P\<lparr>tokens := ts'\<rparr>) = Some (r, P'\<lparr>tokens := ts'\<rparr>)"
    and run: "parse_value (Suc n) stod P = Some (r, P')"
    and same: "same_upto (current_token_pos P') (tokens P) ts'"
  shows "parse_value (Suc n) stod (P\<lparr>tokens := ts'\<rparr>) = Some (r, P'\<lparr>tokens := ts'\<rparr>)"
proof -
  note le = progressesD(2) [OF parse_value_progresses run]
  from same le have len: "current_token_pos P < length ts' \<longleftrightarrow> current_token_pos P < length (tokens P)"
    and nth: "ts' ! current_token_pos P = tokens P ! current_token_pos P"
    by (simp_all add: same_upto_length same_upto_nth)
  show ?thesis
  proof (cases "current_token_pos P < length (tokens P)")
    case False
    with run len show ?thesis by auto
  next
    case inside: True
    show ?thesis
    proof (cases "tok_type (tokens P ! current_token_pos P) = IDENTIFIER")
      case True
      have "Suc (current_token_pos P) \<le> current_token_pos P'"
      proof (cases "Suc (current_token_pos P) < length (tokens P)
                     \<and> tok_value (tokens P ! Suc (current_token_pos P)) = ''{''")
        case False
        with run inside True have "P' = advance P"
          by (auto simp: Let_def)
        then show ?thesis by (simp add: advance_def)
      next
        case brace: True
        with run inside True have "parse_object n stod P = Some (r, P')"
          by (simp add: Let_def)
        then show ?thesis
          using inside True by (rule parse_object_after_name)
      qed
      with same
      have len1: "Suc (current_token_pos P) < length ts'
                    \<longleftrightarrow> Suc (current_token_pos P) < length (tokens P)"
        and nth1: "ts' ! Suc (current_token_pos P) = tokens P ! Suc (current_token_pos P)"
        by (simp_all add: same_upto_length same_upto_nth)
      show ?thesis
      proof (cases "Suc (current_token_pos P) < length (tokens P)
                     \<and> tok_value (tokens P ! Suc (current_token_pos P)) = ''{''")
        case False
        with run inside True len nth len1 nth1 show ?thesis
          by (auto simp: Let_def)
      next
        case brace: True
        with run inside True have "parse_object n stod P = Some (r, P')"
          by (simp add: Let_def)
        from IHo [OF this same] brace inside True len nth len1 nth1 show ?thesis
          by (simp add: Let_def)
      qed
    next
      case other: False
      show ?thesis
      proof (cases "tok_type (tokens P ! current_token_pos P) = PUNCTUATION")
        case False
        with run inside other len nth show ?thesis
          by (auto simp: Let_def split: option.splits if_splits)
      next
        case True
        show ?thesis
        proof (cases "tok_value (tokens P ! current_token_pos P) = ''{''")
          case brace: True
          with run inside True have "parse_object n stod P = Some (r, P')"
            by (simp add: Let_def)
          from IHo [OF this same] brace inside True len nth show ?thesis
            by (simp add: Let_def)
        next
          case no_brace: False
          show ?thesis
          proof (cases "tok_value (tokens P ! current_token_pos P) = ''[''")
            case True2: True
            with run inside True no_brace have "parse_array n stod P = Some (r, P')"
              by (simp add: Let_def)
            from IHa [OF this same] True2 no_brace inside True len nth show ?thesis
              by (simp add: Let_def)
          next
            case False
            with run inside True no_brace len nth show ?thesis
              by (auto simp: Let_def)
          qed
        qed
      qed
    qed
  qed
qed

lemma parse_local:
  "(\<forall>P r P'. parse_value n stod P = Some (r, P') \<longrightarrow>
       same_upto (current_token_pos P') (tokens P) ts' \<longrightarrow>
       parse_value n stod (P\<lparr>tokens := ts'\<rparr>) = Some (r, P'\<lparr>tokens := ts'\<rparr>))
   \<and> (\<forall>P r P'. parse_object n stod P = Some (r, P') \<longrightarrow>
       same_upto (current_token_pos P') (tokens P) ts' \<longrightarrow>
       parse_object n stod (P\<lparr>tokens := ts'\<rparr>) = Some (r, P'\<lparr>tokens := ts'\<rparr>))
   \<and> (\<forall>P m r P'. object_loop n stod P m = Some (r, P') \<longrightarrow>
       same_upto (current_token_pos P') (tokens P) ts' \<longrightarrow>
       object_loop n stod (P\<lparr>tokens := ts'\<rparr>) m = Some (r, P'\<lparr>tokens := ts'\<rparr>))
   \<and> (\<forall>P r P'. parse_array n stod P = Some (r, P') \<longrightarrow>
       same_upto (current_token_pos P') (tokens P) ts' \<longrightarrow>
       parse_array n stod (P\<lparr>tokens := ts'\<rparr>) = Some (r, P'\<lparr>tokens := ts'\<rparr>))
   \<and> (\<forall>P vec r P'. array_loop n stod P vec = Some (r, P') \<longrightarrow>
       same_upto (current_token_pos P') (tokens P) ts' \<longrightarrow>
       array_loop n stod (P\<lparr>tokens := ts'\<rparr>) vec = Some (r, P'\<lparr>tokens := ts'\<rparr>))"
proof (induction n)
  case 0
  show ?case by simp
next
  case (Suc n)
  then have IHv: "parse_value n stod P = Some (r, P') \<Longrightarrow>
       same_upto (current_token_pos P') (tokens P) ts' \<Longrightarrow>
       parse_value n stod (P\<lparr>tokens := ts'\<rparr>) = Some (r, P'\<lparr>tokens := ts'\<rparr>)"
    and IHo: "parse_object n stod P = Some (r, P') \<Longrightarrow>
       same_upto (current_token_pos P') (tokens P) ts' \<Longrightarrow>
       parse_object n stod (P\<lparr>tokens := ts'\<rparr>) = Some (r, P'\<lparr>tokens := ts'\<rparr>)"
    and IHol: "object_loop n stod P m = Some (r, P') \<Longrightarrow>
       same_upto (current_token_pos P') (tokens P) ts' \<Longrightarrow>
       object_loop n stod (P\<lparr>tokens := ts'\<rparr>) m = Some (r, P'\<lparr>tokens := ts'\<rparr>)"
    and IHa: "parse_array n stod P = Some (r, P') \<Longrightarrow>
       same_upto (current_token_pos P') (tokens P) ts' \<Longrightarrow>
       parse_array n stod (P\<lparr>tokens := ts'\<rparr>) = Some (r, P'\<lparr>tokens := ts'\<rparr>)"
    and IHal: "array_loop n stod P vec = Some (r, P') \<Longrightarrow>
       same_upto (current_token_pos P') (tokens P) ts' \<Longrightarrow>
       array_loop n stod (P\<lparr>tokens := ts'\<rparr>) vec = Some (r, P'\<lparr>tokens := ts'\<rparr>)"
    for P r P' m vec
    by blast+
  show ?case
  proof (intro conjI allI impI)
    fix P r P'
    assume "parse_value (Suc n) stod P = Some (r, P')"
      and "same_upto (current_token_pos P') (tokens P) ts'"
    with IHo IHa
    show "parse_value (Suc n) stod (P\<lparr>tokens := ts'\<rparr>) = Some (r, P'\<lparr>tokens := ts'\<rparr>)"
      by (rule parse_value_Suc_local)
  next
    fix P r P'
    assume "parse_object (Suc n) stod P = Some (r, P')"
      and "same_upto (current_token_pos P') (tokens P) ts'"
    with IHol
    show "parse_object (Suc n) stod (P\<lparr>tokens := ts'\<rparr>) = Some (r, P'\<lparr>tokens := ts'\<rparr>)"
      by (rule parse_object_Suc_local)
  next
    fix P m r P'
    assume "object_loop (Suc n) stod P m = Some (r, P')"
      and "same_upto (current_token_pos P') (tokens P) ts'"
    with IHv IHol
    show "object_loop (Suc n) stod (P\<lparr>tokens := ts'\<rparr>) m = Some (r, P'\<lparr>tokens := ts'\<rparr>)"
      by (rule object_loop_Suc_local)
  next
    fix P r P'
    assume "parse_array (Suc n) stod P = Some (r, P')"
      and "same_upto (current_token_pos P') (tokens P) ts'"
    with IHal
    show "parse_array (Suc n) stod (P\<lparr>tokens := ts'\<rparr>) = Some (r, P'\<lparr>tokens := ts'\<rparr>)"
      by (rule parse_array_Suc_local)
  next
    fix P vec r P'
    assume "array_loop (Suc n) stod P vec = Some (r, P')"
      and "same_upto (current_token_pos P') (tokens P) ts'"
    with IHv IHal
    show "array_loop (Suc n) stod (P\<lparr>tokens := ts'\<rparr>) vec = Some (r, P'\<lparr>tokens := ts'\<rparr>)"
      by (rule array_loop_Suc_local)
  qed
qed

lemma parse_value_local:
  "parse_value n stod P = Some (r, P') \<Longrightarrow>
   same_upto (current_token_pos P') (tokens P) ts' \<Longrightarrow>
     parse_value n stod (P\<lparr>tokens := ts'\<rparr>) = Some (r, P'\<lparr>tokens := ts'\<rparr>)"
  using parse_local [of n stod ts'] by blast

subsection \<open>Tokens behind a value\<close>

text \<open>
  An object or an array that is returned has been closed: the loop has read the tokens
  before the cursor that it leaves, up to the closing bracket, and no token from that
  cursor on.
\<close>

lemma same_before_upto:
  assumes "same_before k ts ts'" and "j < k"
  shows "same_upto j ts ts'"
proof -
  from assms(2) have "take (Suc j) ts' = take (Suc j) (take k ts')"
    by (simp add: min_def)
  also from assms(1) have "\<dots> = take (Suc j) (take k ts)"
    by (simp only: same_before_def)
  also from assms(2) have "\<dots> = take (Suc j) ts"
    by (simp add: min_def)
  finally show ?thesis
    by (simp add: same_upto_def)
qed

lemma progresses_valueD:
  assumes "progresses P res" and "res = Some (Returns (Some v), P')"
  shows "current_token_pos P < current_token_pos P'"
  using assms by (simp add: progresses_def)

lemma object_loop_Suc_value_local:
  assumes IHl: "\<And>P m. object_loop n stod P m = Some (Returns (Some v), P') \<Longrightarrow>
                  same_before (current_token_pos P') (tokens P) ts' \<Longrightarrow>
                  object_loop n stod (P\<lparr>tokens := ts'\<rparr>) m
                    = Some (Returns (Some v), P'\<lparr>tokens := ts'\<rparr>)"
    and run: "object_loop (Suc n) stod P m = Some (Returns (Some v), P')"
    and same: "same_before (current_token_pos P') (tokens P) ts'"
  shows "object_loop (Suc n) stod (P\<lparr>tokens := ts'\<rparr>) m
           = Some (Returns (Some v), P'\<lparr>tokens := ts'\<rparr>)"
proof -
  note less = progresses_valueD [OF object_loop_progresses run]
  note upto = same_before_upto [OF same less]
  from upto have len: "current_token_pos P < length ts' \<longleftrightarrow> current_token_pos P < length (tokens P)"
    and nth: "ts' ! current_token_pos P = tokens P ! current_token_pos P"
    by (simp_all add: same_upto_length same_upto_nth)
  note here = at_value_same [OF upto order_refl]
  show ?thesis
  proof (cases "current_token_pos P < length (tokens P)
         \<and> tok_value (tokens P ! current_token_pos P) \<noteq> ''}''")
    case False
    with run len nth here show ?thesis
      by (cases "at_value P ''}''") (auto simp: at_value_def)
  next
    case in_loop: True
    with run have key: "tok_type (tokens P ! current_token_pos P) = IDENTIFIER"
      by (auto split: if_splits)
    with run in_loop have eq: "at_value (advance P) ''=''"
      by (auto simp: Let_def split: if_splits)
    with run in_loop key obtain r2 P2
      where sub: "parse_value n stod (advance (advance P)) = Some (r2, P2)"
      by (cases "parse_value n stod (advance (advance P))") (auto simp: Let_def)
    with run in_loop key eq obtain w where r2: "r2 = Returns (Some w)"
      by (auto simp: Let_def split: cxx.splits option.splits)
    note p2 = progressesD [OF parse_value_progresses sub]
    from p2 have tok2: "tokens P2 = tokens P"
      and pos2: "Suc (Suc (current_token_pos P)) \<le> current_token_pos P2"
      by (simp_all add: advance_def)
    let ?P3 = "if at_value P2 '';'' then advance P2 else P2"
    let ?m = "map_set (tok_value (tokens P ! current_token_pos P)) w m"
    from run in_loop key eq sub r2
    have loop: "object_loop n stod ?P3 ?m = Some (Returns (Some v), P')"
      by (simp add: Let_def)
    from progresses_valueD [OF object_loop_progresses loop]
    have less2: "current_token_pos P2 < current_token_pos P'"
      by (simp add: advance_def split: if_splits)
    note upto2 = same_before_upto [OF same less2]
    from pos2 have "Suc (current_token_pos P) \<le> current_token_pos P2"
      by simp
    note eq' = at_value_advance_same [OF upto2 this, of "''=''"]
    from upto2 have "same_upto (current_token_pos P2) (tokens (advance (advance P))) ts'"
      by (simp add: advance_def)
    from parse_value_local [OF sub this]
    have sub': "parse_value n stod ((advance (advance P))\<lparr>tokens := ts'\<rparr>)
        = Some (r2, P2\<lparr>tokens := ts'\<rparr>)" .
    from upto2 tok2 have "same_upto (current_token_pos P2) (tokens P2) ts'"
      by simp
    then have semi: "at_value (P2\<lparr>tokens := ts'\<rparr>) '';'' = at_value P2 '';''"
      using order_refl by (rule at_value_same)
    from same tok2 have "same_before (current_token_pos P') (tokens ?P3) ts'"
      by (simp add: advance_def)
    from IHl [OF loop this]
    have "object_loop n stod (?P3\<lparr>tokens := ts'\<rparr>) ?m
            = Some (Returns (Some v), P'\<lparr>tokens := ts'\<rparr>)" .
    with in_loop key eq eq' len nth sub' r2 semi show ?thesis
      by (auto simp: Let_def split: if_splits)
  qed
qed

lemma object_loop_value_local:
  "object_loop n stod P m = Some (Returns (Some v), P') \<Longrightarrow>
   same_before (current_token_pos P') (tokens P) ts' \<Longrightarrow>
     object_loop n stod (P\<lparr>tokens := ts'\<rparr>) m = Some (Returns (Some v), P'\<lparr>tokens := ts'\<rparr>)"
proof (induction n arbitrary: P m)
  case 0
  then show ?case by simp
next
  case (Suc n)
  from Suc.IH Suc.prems show ?case
    by (rule object_loop_Suc_value_local)
qed

lemma array_loop_Suc_value_local:
  assumes IHl: "\<And>P vec. array_loop n stod P vec = Some (Returns (Some v), P') \<Longrightarrow>
                  same_before (current_token_pos P') (tokens P) ts' \<Longrightarrow>
                  array_loop n stod (P\<lparr>tokens := ts'\<rparr>) vec
                    = Some (Returns (Some v), P'\<lparr>tokens := ts'\<rparr>)"
    and run: "array_loop (Suc n) stod P vec = Some (Returns (Some v), P')"
    and same: "same_before (current_token_pos P') (tokens P) ts'"
  shows "array_loop (Suc n) stod (P\<lparr>tokens := ts'\<rparr>) vec
           = Some (Returns (Some v), P'\<lparr>tokens := ts'\<rparr>)"
proof -
  note less = progresses_valueD [OF array_loop_progresses run]
  note upto = same_before_upto [OF same less]
  from upto have len: "current_token_pos P < length ts' \<longleftrightarrow> current_token_pos P < length (tokens P)"
    and nth: "ts' ! current_token_pos P = tokens P ! current_token_pos P"
    by (simp_all add: same_upto_length same_upto_nth)
  note here = at_value_same [OF upto order_refl]
  show ?thesis
  proof (cases "current_token_pos P < length (tokens P)
         \<and> tok_value (tokens P ! current_token_pos P) \<noteq> '']''")
    case False
    with run len nth here show ?thesis
      by (cases "at_value P '']''") (auto simp: at_value_def)
  next
    case in_loop: True
    with run obtain r2 P2 where sub: "parse_value n stod P = Some (r2, P2)"
      by (cases "parse_value n stod P") auto
    with run in_loop obtain w where r2: "r2 = Returns (Some w)"
      by (auto split: cxx.splits option.splits)
    note p2 = progressesD [OF parse_value_progresses sub]
    let ?P3 = "if at_value P2 '','' then advance P2 else P2"
    from run in_loop sub r2
    have loop: "array_loop n stod ?P3 (vec @ [w]) = Some (Returns (Some v), P')"
      by simp
    from progresses_valueD [OF array_loop_progresses loop]
    have less2: "current_token_pos P2 < current_token_pos P'"
      by (simp add: advance_def split: if_splits)
    note upto2 = same_before_upto [OF same less2]
    from parse_value_local [OF sub upto2]
    have sub': "parse_value n stod (P\<lparr>tokens := ts'\<rparr>) = Some (r2, P2\<lparr>tokens := ts'\<rparr>)" .
    from upto2 p2 have "same_upto (current_token_pos P2) (tokens P2) ts'"
      by simp
    then have comma: "at_value (P2\<lparr>tokens := ts'\<rparr>) '','' = at_value P2 '',''"
      using order_refl by (rule at_value_same)
    from same p2 have "same_before (current_token_pos P') (tokens ?P3) ts'"
      by (simp add: advance_def)
    from IHl [OF loop this]
    have "array_loop n stod (?P3\<lparr>tokens := ts'\<rparr>) (vec @ [w])
            = Some (Returns (Some v), P'\<lparr>tokens := ts'\<rparr>)" .
    with in_loop len nth sub' r2 comma show ?thesis
      by (auto split: if_splits)
  qed
qed

lemma array_loop_value_local:
  "array_loop n stod P vec = Some (Returns (Some v), P') \<Longrightarrow>
   same_before (current_token_pos P') (tokens P) ts' \<Longrightarrow>
     array_loop n stod (P\<lparr>tokens := ts'\<rparr>) vec = Some (Returns (Some v), P'\<lparr>tokens := ts'\<rparr>)"
proof (induction n arbitrary: P vec)
  case 0
  then show ?case by simp
next
  case (Suc n)
  from Suc.IH Suc.prems show ?case
    by (rule array_loop_Suc_value_local)
qed


lemma parse_array_value_local:
  assumes run: "parse_array n stod P = Some (Returns (Some v), P')"
    and same: "same_before (current_token_pos P') (tokens P) ts'"
  shows "parse_array n stod (P\<lparr>tokens := ts'\<rparr>) = Some (Returns (Some v), P'\<lparr>tokens := ts'\<rparr>)"
proof (cases n)
  case 0
  with run show ?thesis by simp
next
  case (Suc k)
  note less = progresses_valueD [OF parse_array_progresses run]
  note here = at_value_same [OF same_before_upto [OF same less] order_refl]
  from run Suc have bracket: "at_value P ''[''"
    by (auto split: if_splits)
  with run Suc have loop: "array_loop k stod (advance P) [] = Some (Returns (Some v), P')"
    by simp
  from same have "same_before (current_token_pos P') (tokens (advance P)) ts'"
    by (simp add: advance_def)
  from array_loop_value_local [OF loop this] bracket here Suc show ?thesis
    by simp
qed

lemma parse_object_value_local:
  assumes run: "parse_object n stod P = Some (Returns (Some v), P')"
    and same: "same_before (current_token_pos P') (tokens P) ts'"
  shows "parse_object n stod (P\<lparr>tokens := ts'\<rparr>) = Some (Returns (Some v), P'\<lparr>tokens := ts'\<rparr>)"
proof (cases n)
  case 0
  with run show ?thesis by simp
next
  case (Suc k)
  note less = progresses_valueD [OF parse_object_progresses run]
  from same_before_upto [OF same less]
  have len: "current_token_pos P < length ts' \<longleftrightarrow> current_token_pos P < length (tokens P)"
    and nth: "ts' ! current_token_pos P = tokens P ! current_token_pos P"
    by (simp_all add: same_upto_length same_upto_nth)
  let ?P1 = "if current_token_pos P < length (tokens P)
                 \<and> tok_type (tokens P ! current_token_pos P) = IDENTIFIER
             then advance P else P"
  have tok1: "tokens ?P1 = tokens P"
    by (simp add: advance_def)
  from run Suc have run1: "(if \<not> at_value ?P1 ''{''
       then Some (Returns None, ?P1\<lparr>last_error := ''Expected '' @ [CHR 0x27] @ ''{'' @ [CHR 0x27]\<rparr>)
       else object_loop k stod (advance ?P1) []) = Some (Returns (Some v), P')"
    by (simp add: Let_def)
  then have brace: "at_value ?P1 ''{''"
    by (auto split: if_splits)
  with run1 have loop: "object_loop k stod (advance ?P1) [] = Some (Returns (Some v), P')"
    by simp
  from progresses_valueD [OF object_loop_progresses loop]
  have less1: "current_token_pos ?P1 < current_token_pos P'"
    by (simp add: advance_def split: if_splits)
  from same_before_upto [OF same less1] tok1
  have "same_upto (current_token_pos ?P1) (tokens ?P1) ts'"
    by simp
  note brace' = at_value_same [OF this order_refl, of "''{''"]
  have q1: "(if current_token_pos (P\<lparr>tokens := ts'\<rparr>) < length (tokens (P\<lparr>tokens := ts'\<rparr>))
                 \<and> tok_type (tokens (P\<lparr>tokens := ts'\<rparr>) ! current_token_pos (P\<lparr>tokens := ts'\<rparr>))
                     = IDENTIFIER
             then advance (P\<lparr>tokens := ts'\<rparr>) else P\<lparr>tokens := ts'\<rparr>) = ?P1\<lparr>tokens := ts'\<rparr>"
    using len nth by simp
  from same have "same_before (current_token_pos P') (tokens (advance ?P1)) ts'"
    by (simp add: advance_def)
  from object_loop_value_local [OF loop this] brace brace' show ?thesis
    unfolding Suc parse_object.simps Let_def q1 by simp
qed

lemma parse_object_value_after_name:
  assumes "parse_object n stod P = Some (Returns (Some v), P')"
    and "current_token_pos P < length (tokens P)"
    and "tok_type (tokens P ! current_token_pos P) = IDENTIFIER"
  shows "Suc (current_token_pos P) < current_token_pos P'"
proof (cases n)
  case 0
  with assms show ?thesis by simp
next
  case (Suc k)
  with assms have "at_value (advance P) ''{''"
    by (auto simp: Let_def split: if_splits)
  with assms Suc
  have "object_loop k stod (advance (advance P)) [] = Some (Returns (Some v), P')"
    by (simp add: Let_def)
  from progresses_valueD [OF object_loop_progresses this] show ?thesis
    by (simp add: advance_def)
qed

text \<open>
  A call of \<^verbatim>\<open>parse_value\<close> that returns a value reads the tokens from the cursor to the
  token before the cursor it leaves, and one token more in a single case: when the value
  is an enum value, made of one identifier, it has looked whether the next token is \<^verbatim>\<open>{\<close>.
\<close>

lemma parse_value_value_local:
  assumes run: "parse_value n stod P = Some (Returns (Some v), P')"
    and same: "same_before (current_token_pos P') (tokens P) ts'"
    and lookahead: "value_type v = CFGPP_TYPE_ENUM \<Longrightarrow>
                      \<not> (current_token_pos P' < length ts'
                          \<and> tok_value (ts' ! current_token_pos P') = ''{'')"
  shows "parse_value n stod (P\<lparr>tokens := ts'\<rparr>) = Some (Returns (Some v), P'\<lparr>tokens := ts'\<rparr>)"
proof (cases n)
  case 0
  with run show ?thesis by simp
next
  case (Suc k)
  note run = run [unfolded Suc]
  note less = progresses_valueD [OF parse_value_progresses run]
  from same_before_upto [OF same less]
  have len: "current_token_pos P < length ts' \<longleftrightarrow> current_token_pos P < length (tokens P)"
    and nth: "ts' ! current_token_pos P = tokens P ! current_token_pos P"
    by (simp_all add: same_upto_length same_upto_nth)
  from run have inside: "current_token_pos P < length (tokens P)"
    by (auto split: if_splits)
  show ?thesis
  proof (cases "tok_type (tokens P ! current_token_pos P) = IDENTIFIER")
    case True
    show ?thesis
    proof (cases "Suc (current_token_pos P) < length (tokens P)
                   \<and> tok_value (tokens P ! Suc (current_token_pos P)) = ''{''")
      case False
      with run inside True have res: "v = VEnum (tok_value (tokens P ! current_token_pos P))"
        "P' = advance P"
        by (auto simp: Let_def)
      with lookahead have "\<not> (Suc (current_token_pos P) < length ts'
                          \<and> tok_value (ts' ! Suc (current_token_pos P)) = ''{'')"
        by (simp add: advance_def)
      with res inside True len nth show ?thesis
        unfolding Suc by (auto simp: Let_def)
    next
      case brace: True
      with run inside True have obj: "parse_object k stod P = Some (Returns (Some v), P')"
        by (simp add: Let_def)
      from same_before_upto [OF same parse_object_value_after_name [OF obj inside True]]
      have len1: "Suc (current_token_pos P) < length ts'
                    \<longleftrightarrow> Suc (current_token_pos P) < length (tokens P)"
        and nth1: "ts' ! Suc (current_token_pos P) = tokens P ! Suc (current_token_pos P)"
        by (simp_all add: same_upto_length same_upto_nth)
      from parse_object_value_local [OF obj same] brace inside True len nth len1 nth1
      show ?thesis
        unfolding Suc by (simp add: Let_def)
    qed
  next
    case other: False
    show ?thesis
    proof (cases "tok_type (tokens P ! current_token_pos P) = PUNCTUATION")
      case False
      with run inside other len nth show ?thesis
        unfolding Suc by (auto simp: Let_def split: option.splits if_splits)
    next
      case True
      show ?thesis
      proof (cases "tok_value (tokens P ! current_token_pos P) = ''{''")
        case brace: True
        with run inside True have "parse_object k stod P = Some (Returns (Some v), P')"
          by (simp add: Let_def)
        from parse_object_value_local [OF this same] brace inside True len nth show ?thesis
          unfolding Suc by (simp add: Let_def)
      next
        case no_brace: False
        with run inside True have bracket: "tok_value (tokens P ! current_token_pos P) = ''[''"
          by (auto simp: Let_def split: if_splits)
        with run inside True no_brace
        have "parse_array k stod P = Some (Returns (Some v), P')"
          by (simp add: Let_def)
        from parse_array_value_local [OF this same] bracket no_brace inside True len nth
        show ?thesis
          unfolding Suc by (simp add: Let_def)
      qed
    qed
  qed
qed

lemma object_loop_value:
  "object_loop n stod P m = Some (Returns (Some v), P') \<Longrightarrow> value_type v = CFGPP_TYPE_OBJECT"
proof (induction n arbitrary: P m)
  case 0
  then show ?case by simp
next
  case (Suc n)
  show ?case
  proof (cases "current_token_pos P < length (tokens P)
         \<and> tok_value (tokens P ! current_token_pos P) \<noteq> ''}''")
    case False
    with Suc.prems show ?thesis
      by (cases "at_value P ''}''") auto
  next
    case True
    with Suc.prems obtain P3 m3 where "object_loop n stod P3 m3 = Some (Returns (Some v), P')"
      by (auto simp: Let_def split: if_splits option.splits cxx.splits)
    then show ?thesis
      by (rule Suc.IH)
  qed
qed

lemma array_loop_value:
  "array_loop n stod P vec = Some (Returns (Some v), P') \<Longrightarrow> value_type v = CFGPP_TYPE_ARRAY"
proof (induction n arbitrary: P vec)
  case 0
  then show ?case by simp
next
  case (Suc n)
  show ?case
  proof (cases "current_token_pos P < length (tokens P)
         \<and> tok_value (tokens P ! current_token_pos P) \<noteq> '']''")
    case False
    with Suc.prems show ?thesis
      by (cases "at_value P '']''") auto
  next
    case True
    with Suc.prems obtain P3 vec3 where "array_loop n stod P3 vec3 = Some (Returns (Some v), P')"
      by (auto split: if_splits option.splits cxx.splits)
    then show ?thesis
      by (rule Suc.IH)
  qed
qed

lemma parse_object_value:
  "parse_object n stod P = Some (Returns (Some v), P') \<Longrightarrow> value_type v = CFGPP_TYPE_OBJECT"
  by (cases n) (auto simp: Let_def split: if_splits dest: object_loop_value)

lemma parse_array_value:
  "parse_array n stod P = Some (Returns (Some v), P') \<Longrightarrow> value_type v = CFGPP_TYPE_ARRAY"
  by (cases n) (auto split: if_splits dest: array_loop_value)

lemma parse_value_enum:
  assumes run: "parse_value n stod P = Some (Returns (Some v), P')"
    and enum: "value_type v = CFGPP_TYPE_ENUM"
  shows "\<not> (Suc (current_token_pos P) < length (tokens P)
            \<and> tok_value (tokens P ! Suc (current_token_pos P)) = ''{'')"
proof (cases n)
  case 0
  with run show ?thesis by simp
next
  case (Suc k)
  show ?thesis
  proof
    assume "Suc (current_token_pos P) < length (tokens P)
            \<and> tok_value (tokens P ! Suc (current_token_pos P)) = ''{''"
    with run Suc have "value_type v \<noteq> CFGPP_TYPE_ENUM"
      by (auto simp: Let_def split: if_splits option.splits
               dest: parse_object_value parse_array_value)
    with enum show False by simp
  qed
qed

text \<open>No text whose second token is \<^verbatim>\<open>{\<close> is parsed to an enum value.\<close>

lemma parse_string_identifier_before_brace:
  assumes tok: "tokenize ml parser config_text = Some (ts, Pb)"
    and brace: "1 < length ts" "tok_value (ts ! 1) = ''{''"
  shows "cfgpp_parse_string ml stod parser config_text \<noteq> Some ((CFGPP_SUCCESS, Some (VEnum s)), P)"
proof
  assume "cfgpp_parse_string ml stod parser config_text = Some ((CFGPP_SUCCESS, Some (VEnum s)), P)"
  with tok have "parse_value (parse_fuel ts) stod (Pb\<lparr>tokens := ts, current_token_pos := 0\<rparr>)
      = Some (Returns (Some (VEnum s)), P)"
    by (auto simp: cfgpp_parse_string_def Let_def split: option.splits cxx.splits if_splits)
  from parse_value_enum [OF this] brace show False
    by simp
qed

text \<open>
  C10, as stated, fails. The text \<^verbatim>\<open>a\<close> is a complete value: \<^verbatim>\<open>cfgpp_parse_string\<close> returns
  \<^verbatim>\<open>CFGPP_SUCCESS\<close> and the enum value \<open>a\<close>, with the cursor on the end-of-file token.
  The text \<^verbatim>\<open>a {\<close> begins with the same token and goes on with the further token \<^verbatim>\<open>{\<close>, and
  the call returns \<^verbatim>\<open>CFGPP_ERROR_INVALID_SYNTAX\<close> and no value: \<^verbatim>\<open>parse_value\<close> looks one
  token behind an identifier, finds \<^verbatim>\<open>{\<close>, and parses an object of the name \<open>a\<close>, whose
  first key is missing.
\<close>

theorem parse_identifier_before_brace_counterexample:
  "cfgpp_parse_string False (\<lambda>s. None) cfgpp_parser_create ''a''
     = Some ((CFGPP_SUCCESS, Some (VEnum ''a'')),
             cfgpp_parser_create
               \<lparr>tokens := [Token IDENTIFIER ''a'' 1 1, Token END_OF_FILE [] 1 2],
                current_token_pos := 1\<rparr>)
   \<and> cfgpp_parse_string False (\<lambda>s. None) cfgpp_parser_create ''a {''
     = Some ((CFGPP_ERROR_INVALID_SYNTAX, None),
             cfgpp_parser_create
               \<lparr>tokens := [Token IDENTIFIER ''a'' 1 1, Token PUNCTUATION ''{'' 1 3,
                           Token END_OF_FILE [] 1 4],
                current_token_pos := 2,
                last_error := ''Expected identifier for object key''\<rparr>)"
  by code_simp

text \<open>
  C10, amended. Let a text be a complete value: alone, it is parsed with \<^verbatim>\<open>CFGPP_SUCCESS\<close>
  to the value \<open>v\<close>, and the cursor is left on its end-of-file token, so that the tokens
  \<open>vs\<close> before it are those of the value. Then every text whose tokens are \<open>vs\<close> followed
  by any further tokens is parsed with \<^verbatim>\<open>CFGPP_SUCCESS\<close> to the same value \<open>v\<close>, with the
  cursor behind \<open>vs\<close> and the parser otherwise as the value alone leaves it; unless \<open>v\<close>
  is an enum value (one identifier) and the first further token is \<^verbatim>\<open>{\<close>, which makes the
  identifier the name of an object, so that the call never returns \<open>v\<close>. For the text \<^verbatim>\<open>1 2\<close>
  the result is \<open>Integer(1)\<close>, and for \<^verbatim>\<open>a } {\<close> it is the enum value \<open>a\<close>.
\<close>

theorem parse_string_ignores_trailing_tokens:
  assumes alone: "tokenize ml parser value_text = Some (vs @ [eof], Pa)"
    and run: "cfgpp_parse_string ml stod parser value_text = Some ((CFGPP_SUCCESS, Some v), Pv)"
    and complete: "current_token_pos Pv = length vs"
    and other: "tokenize ml parser config_text = Some (vs @ rest, Pb)"
    and lookahead: "value_type v = CFGPP_TYPE_ENUM \<Longrightarrow> rest \<noteq> [] \<Longrightarrow> tok_value (hd rest) \<noteq> ''{''"
  shows "cfgpp_parse_string ml stod parser config_text
           = Some ((CFGPP_SUCCESS, Some v), Pv\<lparr>tokens := vs @ rest\<rparr>)"
proof -
  let ?ts = "vs @ [eof]"
  let ?ts' = "vs @ rest"
  let ?P = "parser\<lparr>tokens := ?ts, current_token_pos := 0\<rparr>"
  let ?Q = "parser\<lparr>tokens := ?ts', current_token_pos := 0\<rparr>"
  let ?N = "max (parse_fuel ?ts) (parse_fuel ?ts')"
  from tokenize_cases [OF alone] have Pa: "Pa = parser"
    by simp
  from run alone Pa
  have first: "parse_value (parse_fuel ?ts) stod ?P = Some (Returns (Some v), Pv)"
    by (auto simp: cfgpp_parse_string_def split: option.splits cxx.splits)
  from progresses_valueD [OF parse_value_progresses first] complete have vs: "vs \<noteq> []"
    by auto
  with tokenize_cases [OF other] have Pb: "Pb = parser"
    by simp
  from first have "parse_value ?N stod ?P = Some (Returns (Some v), Pv)"
    by (rule parse_value_fuel) simp
  moreover from complete have "same_before (current_token_pos Pv) (tokens ?P) ?ts'"
    by (simp add: same_before_def)
  moreover have "\<not> (current_token_pos Pv < length ?ts'
                    \<and> tok_value (?ts' ! current_token_pos Pv) = ''{'')"
    if "value_type v = CFGPP_TYPE_ENUM"
    using lookahead [OF that] complete by (cases rest) (auto simp: nth_append)
  ultimately
  have "parse_value ?N stod (?P\<lparr>tokens := ?ts'\<rparr>) = Some (Returns (Some v), Pv\<lparr>tokens := ?ts'\<rparr>)"
    by (rule parse_value_value_local)
  moreover have "?P\<lparr>tokens := ?ts'\<rparr> = ?Q"
    by (cases parser) simp
  ultimately
  have local: "parse_value ?N stod ?Q = Some (Returns (Some v), Pv\<lparr>tokens := ?ts'\<rparr>)"
    by simp
  obtain res where res: "parse_value (parse_fuel ?ts') stod ?Q = Some res"
    using parse_value_returns [of ?Q stod] by auto
  then have "parse_value ?N stod ?Q = Some res"
    by (rule parse_value_fuel) simp
  with local have "res = (Returns (Some v), Pv\<lparr>tokens := ?ts'\<rparr>)"
    by simp
  with res other vs Pb show ?thesis
    by (simp add: cfgpp_parse_string_def)
qed


theorem parse_string_ignores_trailing_tokens_witness:
  "tokenize False cfgpp_parser_create ''1''
     = Some ([Token NUMBER ''1'' 1 1, Token END_OF_FILE [] 1 2], cfgpp_parser_create)
   \<and> cfgpp_parse_string False (\<lambda>s. None) cfgpp_parser_create ''1''
     = Some ((CFGPP_SUCCESS, Some (VInteger 1)),
             cfgpp_parser_create
               \<lparr>tokens := [Token NUMBER ''1'' 1 1, Token END_OF_FILE [] 1 2],
                current_token_pos := 1\<rparr>)
   \<and> tokenize False cfgpp_parser_create ''1 2''
     = Some ([Token NUMBER ''1'' 1 1, Token NUMBER ''2'' 1 3, Token END_OF_FILE [] 1 4],
             cfgpp_parser_create)
   \<and> cfgpp_parse_string False (\<lambda>s. None) cfgpp_parser_create ''1 2''
     = Some ((CFGPP_SUCCESS, Some (VInteger 1)),
             cfgpp_parser_create
               \<lparr>tokens := [Token NUMBER ''1'' 1 1, Token NUMBER ''2'' 1 3, Token END_OF_FILE [] 1 4],
                current_token_pos := 1\<rparr>)
   \<and> tokenize False cfgpp_parser_create ''a''
     = Some ([Token IDENTIFIER ''a'' 1 1, Token END_OF_FILE [] 1 2], cfgpp_parser_create)
   \<and> cfgpp_parse_string False (\<lambda>s. None) cfgpp_parser_create ''a''
     = Some ((CFGPP_SUCCESS, Some (VEnum ''a'')),
             cfgpp_parser_create
               \<lparr>tokens := [Token IDENTIFIER ''a'' 1 1, Token END_OF_FILE [] 1 2],
                current_token_pos := 1\<rparr>)
   \<and> tokenize False cfgpp_parser_create ''a } {''
     = Some ([Token IDENTIFIER ''a'' 1 1, Token PUNCTUATION ''}'' 1 3,
              Token PUNCTUATION ''{'' 1 5, Token END_OF_FILE [] 1 6],
             cfgpp_parser_create)
   \<and> value_type (VEnum ''a'') = CFGPP_TYPE_ENUM
   \<and> tok_value (hd [Token PUNCTUATION ''}'' 1 3, Token PUNCTUATION ''{'' 1 5,
                     Token END_OF_FILE [] 1 6]) \<noteq> ''{''
   \<and> cfgpp_parse_string False (\<lambda>s. None) cfgpp_parser_create ''a } {''
     = Some ((CFGPP_SUCCESS, Some (VEnum ''a'')),
             cfgpp_parser_create
               \<lparr>tokens := [Token IDENTIFIER ''a'' 1 1, Token PUNCTUATION ''}'' 1 3,
                           Token PUNCTUATION ''{'' 1 5, Token END_OF_FILE [] 1 6],
                current_token_pos := 1\<rparr>)"
proof -
  let ?one = "Token NUMBER ''1'' 1 1"
  let ?a = "Token IDENTIFIER ''a'' 1 1"
  let ?eof = "Token END_OF_FILE [] 1 2"
  let ?rest1 = "[Token NUMBER ''2'' 1 3, Token END_OF_FILE [] 1 4]"
  let ?rest2 = "[Token PUNCTUATION ''}'' 1 3, Token PUNCTUATION ''{'' 1 5,
                 Token END_OF_FILE [] 1 6]"
  let ?P1 = "cfgpp_parser_create\<lparr>tokens := [?one, ?eof], current_token_pos := 1\<rparr>"
  let ?P2 = "cfgpp_parser_create\<lparr>tokens := [?a, ?eof], current_token_pos := 1\<rparr>"
  have tok1: "tokenize False cfgpp_parser_create ''1'' = Some ([?one] @ [?eof], cfgpp_parser_create)"
    by code_simp
  have run1: "cfgpp_parse_string False (\<lambda>s. None) cfgpp_parser_create ''1''
      = Some ((CFGPP_SUCCESS, Some (VInteger 1)), ?P1)"
    by code_simp
  have pos1: "current_token_pos ?P1 = length [?one]"
    by simp
  have other1: "tokenize False cfgpp_parser_create ''1 2''
      = Some ([?one] @ ?rest1, cfgpp_parser_create)"
    by code_simp
  have look1: "tok_value (hd ?rest1) \<noteq> ''{''"
    by simp
  note there1 = parse_string_ignores_trailing_tokens [OF tok1 run1 pos1 other1 look1]
  have tok2: "tokenize False cfgpp_parser_create ''a'' = Some ([?a] @ [?eof], cfgpp_parser_create)"
    by code_simp
  have run2: "cfgpp_parse_string False (\<lambda>s. None) cfgpp_parser_create ''a''
      = Some ((CFGPP_SUCCESS, Some (VEnum ''a'')), ?P2)"
    by code_simp
  have pos2: "current_token_pos ?P2 = length [?a]"
    by simp
  have other2: "tokenize False cfgpp_parser_create ''a } {''
      = Some ([?a] @ ?rest2, cfgpp_parser_create)"
    by code_simp
  have enum: "value_type (VEnum ''a'') = CFGPP_TYPE_ENUM"
    by simp
  have look2: "tok_value (hd ?rest2) \<noteq> ''{''"
    by simp
  note there2 = parse_string_ignores_trailing_tokens [OF tok2 run2 pos2 other2 look2]
  from tok1 run1 other1 there1 tok2 run2 other2 enum look2 there2 show ?thesis
    by (simp add: cfgpp_parser_create_def)
qed

section \<open>Numbers\<close>


lemma not_digit [simp]:
  "\<not> is_digit CHR ''.''" "\<not> is_digit CHR ''e''" "\<not> is_digit CHR ''E''"
  "\<not> is_digit CHR ''+''" "\<not> is_digit CHR ''-''"
  by (simp_all add: is_digit_def)

















section \<open>Characters that start no token\<close>

text \<open>
  Where only white space stands before the character, the recorded line and column are
  those of the character.
\<close>

lemma skip_space_position:
  "list_all isspace ws \<Longrightarrow> \<not> isspace ch \<Longrightarrow>
     skip_space (ws @ ch # rest) line column = (ch # rest, position_after ws line column)"
  by (induction ws arbitrary: line column) simp_all

lemma stray_character_after_white_space:
  assumes "list_all isspace ws" and "\<not> isspace ch"
    and "first_match (patterns ml) (ch # rest) = None"
  shows "tokenize ml parser (ws @ ch # rest)
           = Some ([], parser
                \<lparr>last_error := ''Unexpected character: '' @ [ch],
                 last_error_line := int (fst (position_after ws 1 1)),
                 last_error_column := int (snd (position_after ws 1 1))\<rparr>)"
proof -
  obtain l c where pos: "position_after ws 1 1 = (l, c)"
    by (cases "position_after ws 1 1")
  with skip_space_position [OF assms(1,2), of rest 1 1]
  have "skip_space (ws @ ch # rest) 1 1 = (ch # rest, l, c)"
    by simp
  with assms(3) have "scan ml (ws @ ch # rest) 1 1 [] = Some (Inl (ch, l, c))"
    by (subst scan.simps) simp
  with pos show ?thesis
    by (simp add: tokenize_def)
qed

text \<open>
  C9: the text is the string literal \<^verbatim>\<open>"a\<close>, newline, \<^verbatim>\<open>b"\<close>, then a space and \<^verbatim>\<open>%\<close>. The
  percent sign stands in line 2, column 4. The lexer returns no token and names the
  character, but records line 1 and column 7: the newline inside the string token is not
  counted as a line, and the column goes on from the start of the token.
\<close>

theorem stray_character_after_multiline_string:
  "tokenize False cfgpp_parser_create
     ([CHR 0x22, CHR ''a'', CHR 0x0A, CHR ''b'', CHR 0x22] @ '' %'')
     = Some ([], cfgpp_parser_create
                   \<lparr>last_error := ''Unexpected character: %'',
                    last_error_line := 1, last_error_column := 7\<rparr>)
   \<and> position_after ([CHR 0x22, CHR ''a'', CHR 0x0A, CHR ''b'', CHR 0x22] @ '' '') 1 1 = (2, 4)"
  by code_simp

end
